theory Spec2Isabelle
  imports Main "HOL-Library.Monad_Syntax"
begin

section \<open>Text and characters\<close>

text \<open>
  The script works on Python \<^verbatim>\<open>str\<close> values: sequences of Unicode code points. A code
  point is a natural number here, a text a list of them, so that the line boundaries of
  \<^verbatim>\<open>str.splitlines\<close> and the white space of \<^verbatim>\<open>\s\<close> beyond ASCII (U+0085, U+2028, ...) are
  part of the model. \<open>py\<close> turns a literal into such a text.
\<close>

type_synonym pystr = "nat list"

definition py :: "string \<Rightarrow> pystr" where
  "py s = map of_char s"

text \<open>
  \<^verbatim>\<open>\s\<close> in a \<^verbatim>\<open>str\<close> pattern: the code points for which \<^verbatim>\<open>str.isspace\<close> holds
  (TAB, LF, VT, FF, CR, FS, GS, RS, US, SPACE, NEL, NBSP, U+1680, U+2000..U+200A,
  U+2028, U+2029, U+202F, U+205F, U+3000).
\<close>

definition is_space :: "nat \<Rightarrow> bool" where
  "is_space c =
     (c \<in> set [9, 10, 11, 12, 13, 28, 29, 30, 31, 32, 133, 160, 5760]
      \<or> (8192 \<le> c \<and> c \<le> 8202)
      \<or> c \<in> set [8232, 8233, 8239, 8287, 12288])"

text \<open>
  The line boundaries of \<^verbatim>\<open>str.splitlines\<close>: LF, VT, FF, CR, FS, GS, RS, NEL, U+2028,
  U+2029 (and CR LF as one boundary).
\<close>

definition is_linebreak :: "nat \<Rightarrow> bool" where
  "is_linebreak c = (c \<in> set [10, 11, 12, 13, 28, 29, 30, 133, 8232, 8233])"

text \<open>One boundary is consumed after a line: CR LF together, any other boundary alone.\<close>

definition skip_break :: "pystr \<Rightarrow> pystr" where
  "skip_break r =
     (case r of
        [] \<Rightarrow> []
      | b # r' \<Rightarrow>
          (case r' of
             [] \<Rightarrow> []
           | d # r'' \<Rightarrow> if b = 13 \<and> d = 10 then r'' else r'))"

function splitlines :: "pystr \<Rightarrow> pystr list" where
  "splitlines s =
     (if s = [] then []
      else takeWhile (\<lambda>c. \<not> is_linebreak c) s
             # splitlines (skip_break (dropWhile (\<lambda>c. \<not> is_linebreak c) s)))"
  by pat_completeness auto
termination
proof (relation "measure length")
  show "wf (measure length)" by simp
next
  fix s :: pystr
  assume ne: "s \<noteq> []"
  have a: "length (skip_break r) < length r" if "r \<noteq> []" for r
    using that by (auto simp: skip_break_def split: list.splits)
  have b: "length (dropWhile (\<lambda>c. \<not> is_linebreak c) s) \<le> length s"
    by (rule length_dropWhile_le)
  have "length (skip_break (dropWhile (\<lambda>c. \<not> is_linebreak c) s)) < length s"
  proof (cases "dropWhile (\<lambda>c. \<not> is_linebreak c) s = []")
    case True
    have "skip_break [] = []" by (simp add: skip_break_def)
    with ne show ?thesis unfolding True by simp
  next
    case False
    from a [OF False] b show ?thesis by linarith
  qed
  then show "(skip_break (dropWhile (\<lambda>c. \<not> is_linebreak c) s), s) \<in> measure length"
    by simp
qed

declare splitlines.simps [simp del]

text \<open>\<^verbatim>\<open>"\n".join(out)\<close> and \<^verbatim>\<open>text.endswith("\n")\<close>.\<close>

fun join_nl :: "pystr list \<Rightarrow> pystr" where
  "join_nl [] = []"
| "join_nl [x] = x"
| "join_nl (x # y # zs) = x @ 10 # join_nl (y # zs)"

definition startswith :: "pystr \<Rightarrow> pystr \<Rightarrow> bool" where
  "startswith s prefix = (take (length prefix) s = prefix)"

definition endswith :: "pystr \<Rightarrow> pystr \<Rightarrow> bool" where
  "endswith s suffix = (length suffix \<le> length s \<and> drop (length s - length suffix) s = suffix)"

section \<open>The two patterns\<close>

text \<open>
  The fragment of Python's \<^verbatim>\<open>re\<close> that the two patterns use, with its backtracking
  order: a literal, a greedy star over a character class (plain or as a named group), a
  negative lookahead over alternative literals, and \<^verbatim>\<open>$\<close>. \<^verbatim>\<open>Pattern.match\<close> anchors
  at the start of the string, where the leading \<^verbatim>\<open>^\<close> always holds. The class \<^verbatim>\<open>.\<close> is
  every code point but LF; \<^verbatim>\<open>$\<close> holds at the end of the string and before a final LF.
  A match is the list of its named groups.
\<close>

datatype re_class = Space | Dot

fun cls_mem :: "re_class \<Rightarrow> nat \<Rightarrow> bool" where
  "cls_mem Space c = is_space c"
| "cls_mem Dot c = (c \<noteq> 10)"

datatype re_atom =
    Lit pystr
  | Star re_class
  | GroupStar string re_class
  | NotAhead "pystr list"
  | Eol

type_synonym re_match = "(string \<times> pystr) list"

fun first_some :: "'a option list \<Rightarrow> 'a option" where
  "first_some [] = None"
| "first_some (None # xs) = first_some xs"
| "first_some (Some x # xs) = Some x"

text \<open>
  A greedy star tries the longest run of the class first and gives characters back one
  at a time while the rest of the pattern fails.
\<close>

fun rmatch :: "re_atom list \<Rightarrow> pystr \<Rightarrow> re_match option" where
  "rmatch [] s = Some []"
| "rmatch (Lit l # rs) s =
     (if startswith s l then rmatch rs (drop (length l) s) else None)"
| "rmatch (Star c # rs) s =
     first_some (map (\<lambda>n. rmatch rs (drop n s))
                     (rev [0 ..< Suc (length (takeWhile (cls_mem c) s))]))"
| "rmatch (GroupStar g c # rs) s =
     first_some (map (\<lambda>n. map_option (\<lambda>m. (g, take n s) # m) (rmatch rs (drop n s)))
                     (rev [0 ..< Suc (length (takeWhile (cls_mem c) s))]))"
| "rmatch (NotAhead alts # rs) s =
     (if list_ex (startswith s) alts then None else rmatch rs s)"
| "rmatch (Eol # rs) s =
     (if s = [] \<or> s = [10] then rmatch rs s else None)"

declare rmatch.simps [simp del]

text \<open>\<^verbatim>\<open>m.group(name)\<close>; both patterns define every group the script asks for.\<close>

definition group :: "re_match \<Rightarrow> string \<Rightarrow> pystr" where
  "group m name = (case map_of m name of Some g \<Rightarrow> g | None \<Rightarrow> [])"

text \<open>
  \<^verbatim>\<open>SAFETY_START_RE = ^(?P<indent>\s*)//(?!/|!)\s*SAFETY:.*$\<close> and
  \<^verbatim>\<open>FOLLOWING_COMMENT_RE = ^(?P<indent>\s*)//(?!/|!)(?P<rest>.*)$\<close>.
\<close>

definition SAFETY_START_RE :: "re_atom list" where
  "SAFETY_START_RE =
     [GroupStar ''indent'' Space, Lit (py ''//''), NotAhead [py ''/'', py ''!''],
      Star Space, Lit (py ''SAFETY:''), Star Dot, Eol]"

definition FOLLOWING_COMMENT_RE :: "re_atom list" where
  "FOLLOWING_COMMENT_RE =
     [GroupStar ''indent'' Space, Lit (py ''//''), NotAhead [py ''/'', py ''!''],
      GroupStar ''rest'' Dot, Eol]"

section \<open>transform_content\<close>

text \<open>\<^verbatim>\<open>indent + "///" + line[len(indent) + 2:]\<close>, with \<open>indent\<close> the group of the match.\<close>

definition rewrite :: "re_match \<Rightarrow> pystr \<Rightarrow> pystr" where
  "rewrite m line =
     (let indent = group m ''indent''
      in indent @ py ''///'' @ drop (length indent + 2) line)"

text \<open>
  The inner loop, from \<open>j\<close> with the output so far; it returns the index where it stopped
  and the output. A loop is a partial function into \<open>option\<close>: \<open>None\<close> is a run that
  does not end.
\<close>

partial_function (option) inner_loop ::
  "pystr list \<Rightarrow> nat \<Rightarrow> pystr list \<Rightarrow> (nat \<times> pystr list) option" where
  "inner_loop lines j out =
     (if j < length lines then
        (let next_line = lines ! j in
         case rmatch FOLLOWING_COMMENT_RE next_line of
           None \<Rightarrow> Some (j, out)
         | Some m2 \<Rightarrow> inner_loop lines (j + 1) (out @ [rewrite m2 next_line]))
      else Some (j, out))"

declare inner_loop.simps [code]

text \<open>One iteration of the outer loop at \<open>i < len(lines)\<close>: the new \<open>i\<close>, \<open>out\<close>, \<open>changed\<close>.\<close>

definition outer_body ::
  "pystr list \<Rightarrow> nat \<Rightarrow> pystr list \<Rightarrow> bool \<Rightarrow> (nat \<times> pystr list \<times> bool) option" where
  "outer_body lines i out changed =
     (let line = lines ! i in
      case rmatch SAFETY_START_RE line of
        None \<Rightarrow> Some (i + 1, out @ [line], changed)
      | Some m \<Rightarrow>
          inner_loop lines (i + 1) (out @ [rewrite m line])
            \<bind> (\<lambda>(j, out'). Some (j, out', True)))"

partial_function (option) outer_loop ::
  "pystr list \<Rightarrow> nat \<Rightarrow> pystr list \<Rightarrow> bool \<Rightarrow> (pystr list \<times> bool) option" where
  "outer_loop lines i out changed =
     (if i < length lines then
        outer_body lines i out changed
          \<bind> (\<lambda>(i', out', changed'). outer_loop lines i' out' changed')
      else Some (out, changed))"

declare outer_loop.simps [code]

definition transform_content :: "pystr \<Rightarrow> (pystr \<times> bool) option" where
  "transform_content text =
     (let lines = splitlines text in
      outer_loop lines 0 [] False
        \<bind> (\<lambda>(out, changed).
              let result = join_nl out;
                  result = (if endswith text [10] then result @ [10] else result)
              in Some (result, changed)))"

section \<open>The repository walk\<close>

text \<open>
  A path is the list of its components; \<^verbatim>\<open>Path(dirpath) / name\<close> appends one, and
  \<^verbatim>\<open>path.name\<close> is the last. The names are those of directory entries: not empty, without
  a separator.
\<close>

type_synonym path = "pystr list"

definition path_name :: "path \<Rightarrow> pystr" where
  "path_name p = (if p = [] then [] else last p)"

fun path_str :: "path \<Rightarrow> pystr" where
  "path_str [] = py ''.''"
| "path_str [x] = x"
| "path_str (x # y # zs) = x @ 47 # path_str (y # zs)"

definition skip_names :: "pystr list" where
  "skip_names =
     map py [''.git'', ''target'', ''.cargo'', ''.hg'', ''.svn'', ''.idea'', ''.vscode'',
             ''node_modules'']"

definition should_skip_dir :: "path \<Rightarrow> bool" where
  "should_skip_dir p = (path_name p \<in> set skip_names)"

text \<open>
  The tree below the root as \<^verbatim>\<open>os.walk\<close> lists it. A file carries what
  \<^verbatim>\<open>read_text\<close> gives (\<open>Inl\<close> the exception's message, \<open>Inr\<close> the text) and whether
  \<^verbatim>\<open>write_text\<close> succeeds on it. A directory that cannot be listed, or a link to a
  directory, yields nothing, as an empty directory does.
\<close>

datatype fs_entry =
    File pystr "pystr + pystr" bool
  | Dir pystr "fs_entry list"

fun is_dir :: "fs_entry \<Rightarrow> bool" where
  "is_dir (Dir _ _) = True"
| "is_dir (File _ _ _) = False"

fun entry_name :: "fs_entry \<Rightarrow> pystr" where
  "entry_name (Dir name _) = name"
| "entry_name (File name _ _) = name"

text \<open>What the walk does to the world, in order; and the counter it returns.\<close>

datatype event =
    ReadText path
  | Print pystr
  | WriteText path pystr

record run_state =
  changed_files :: nat
  events :: "event list"

definition emit :: "event \<Rightarrow> run_state \<Rightarrow> run_state" where
  "emit e st = st\<lparr>events := events st @ [e]\<rparr>"

text \<open>
  A result is \<open>Inr\<close> the state when the code goes on, \<open>Inl\<close> the path whose
  \<^verbatim>\<open>write_text\<close> raised, with the state reached: nothing catches that exception.
\<close>

type_synonym walk_result = "(path \<times> run_state) + run_state"

definition skip_msg :: "path \<Rightarrow> pystr \<Rightarrow> pystr" where
  "skip_msg fpath e = py ''[skip] '' @ path_str fpath @ py '': '' @ e"

definition update_msg :: "bool \<Rightarrow> path \<Rightarrow> pystr" where
  "update_msg dry_run fpath =
     py ''[update]'' @ (if dry_run then py '' (dry-run)'' else []) @ py '' '' @ path_str fpath"

text \<open>The body of the loop over \<open>filenames\<close>, for one name.\<close>

definition process_file ::
  "bool \<Rightarrow> bool \<Rightarrow> path \<Rightarrow> pystr \<Rightarrow> pystr + pystr \<Rightarrow> bool \<Rightarrow> run_state
   \<Rightarrow> walk_result option" where
  "process_file dry_run verbose dirpath fname content writable st =
     (if \<not> endswith fname (py ''.rs'') then Some (Inr st)
      else
        let fpath = dirpath @ [fname];
            st = emit (ReadText fpath) st
        in case content of
             Inl e \<Rightarrow> Some (Inr (if verbose then emit (Print (skip_msg fpath e)) st else st))
           | Inr src \<Rightarrow>
               transform_content src \<bind> (\<lambda>(new_src, changed).
                 if changed then
                   let st = st\<lparr>changed_files := changed_files st + 1\<rparr>;
                       st = (if verbose \<or> dry_run
                             then emit (Print (update_msg dry_run fpath)) st else st)
                   in if dry_run then Some (Inr st)
                      else if writable then Some (Inr (emit (WriteText fpath new_src) st))
                      else Some (Inl (fpath, st))
                 else Some (Inr st)))"

fun process_files ::
  "bool \<Rightarrow> bool \<Rightarrow> path \<Rightarrow> fs_entry list \<Rightarrow> run_state \<Rightarrow> walk_result option" where
  "process_files dry_run verbose dirpath [] st = Some (Inr st)"
| "process_files dry_run verbose dirpath (Dir name sub # es) st =
     process_files dry_run verbose dirpath es st"
| "process_files dry_run verbose dirpath (File fname content writable # es) st =
     (case process_file dry_run verbose dirpath fname content writable st of
        None \<Rightarrow> None
      | Some (Inl err) \<Rightarrow> Some (Inl err)
      | Some (Inr st') \<Rightarrow> process_files dry_run verbose dirpath es st')"

text \<open>
  \<^verbatim>\<open>os.walk\<close>, top down: the directory's names, pruned in place by the loop body, then
  its files, then the directories that are left, each walked the same way.
\<close>

lemma size_filter_entries: "size_list size (filter P es) \<le> size_list size (es :: fs_entry list)"
  by (induction es) simp_all

function walk ::
    "bool \<Rightarrow> bool \<Rightarrow> path \<Rightarrow> fs_entry list \<Rightarrow> run_state \<Rightarrow> walk_result option"
  and walk_subdirs ::
    "bool \<Rightarrow> bool \<Rightarrow> path \<Rightarrow> fs_entry list \<Rightarrow> run_state \<Rightarrow> walk_result option" where
  "walk dry_run verbose dirpath entries st =
     (let dirnames = filter (\<lambda>d. \<not> should_skip_dir (dirpath @ [entry_name d]))
                            (filter is_dir entries)
      in case process_files dry_run verbose dirpath entries st of
           None \<Rightarrow> None
         | Some (Inl err) \<Rightarrow> Some (Inl err)
         | Some (Inr st') \<Rightarrow> walk_subdirs dry_run verbose dirpath dirnames st')"
| "walk_subdirs dry_run verbose dirpath [] st = Some (Inr st)"
| "walk_subdirs dry_run verbose dirpath (File fname content writable # ds) st =
     walk_subdirs dry_run verbose dirpath ds st"
| "walk_subdirs dry_run verbose dirpath (Dir name sub # ds) st =
     (case walk dry_run verbose (dirpath @ [name]) sub st of
        None \<Rightarrow> None
      | Some (Inl err) \<Rightarrow> Some (Inl err)
      | Some (Inr st') \<Rightarrow> walk_subdirs dry_run verbose dirpath ds st')"
  by pat_completeness auto
termination
proof (relation "measure (\<lambda>x. case x of
          Inl (_, _, _, es, _) \<Rightarrow> 2 * size_list size es + 1
        | Inr (_, _, _, ds, _) \<Rightarrow> 2 * size_list size ds)")
  show "wf (measure (\<lambda>x. case x of
          Inl (_, _, _, es, _) \<Rightarrow> 2 * size_list size es + 1
        | Inr (_, _, _, ds, _) \<Rightarrow> 2 * size_list size ds))"
    by simp
next
  fix dry_run verbose :: bool and dirpath :: path and entries :: "fs_entry list"
    and st st' :: run_state and dirnames
  assume "dirnames = filter (\<lambda>d. \<not> should_skip_dir (dirpath @ [entry_name d]))
                            (filter is_dir entries)"
  moreover have "size_list size (filter (\<lambda>d. \<not> should_skip_dir (dirpath @ [entry_name d]))
                            (filter is_dir entries)) \<le> size_list size entries"
    using size_filter_entries [of "\<lambda>d. \<not> should_skip_dir (dirpath @ [entry_name d])"
            "filter is_dir entries"]
          size_filter_entries [of is_dir entries]
    by linarith
  ultimately show "(Inr (dry_run, verbose, dirpath, dirnames, st'),
          Inl (dry_run, verbose, dirpath, entries, st))
        \<in> measure (\<lambda>x. case x of
          Inl (_, _, _, es, _) \<Rightarrow> 2 * size_list size es + 1
        | Inr (_, _, _, ds, _) \<Rightarrow> 2 * size_list size ds)"
    by simp
qed simp_all

declare walk.simps [simp del]

text \<open>
  \<open>process_repo\<close> on the tree under \<open>root\<close>; what the script returns is the
  \<open>changed_files\<close> of the final state.
\<close>

definition process_repo :: "path \<Rightarrow> bool \<Rightarrow> bool \<Rightarrow> fs_entry list \<Rightarrow> walk_result option" where
  "process_repo root dry_run verbose tree =
     walk dry_run verbose root tree \<lparr>changed_files = 0, events = []\<rparr>"

definition final_state :: "walk_result \<Rightarrow> run_state" where
  "final_state r = (case r of Inl (_, st) \<Rightarrow> st | Inr st \<Rightarrow> st)"

section \<open>Notions used to state the properties\<close>

text \<open>A line is a trigger line, or a plain comment line, when the pattern matches it.\<close>

definition trigger :: "pystr \<Rightarrow> bool" where
  "trigger line = (rmatch SAFETY_START_RE line \<noteq> None)"

definition following :: "pystr \<Rightarrow> bool" where
  "following line = (rmatch FOLLOWING_COMMENT_RE line \<noteq> None)"

text \<open>
  What is left for \<^verbatim>\<open>.*$\<close> must hold no LF, unless it is the last character; and the text
  after the indent and the marker of a plain comment, when the line is one.
\<close>

definition eol_ok :: "pystr \<Rightarrow> bool" where
  "eol_ok r = (dropWhile (\<lambda>c. c \<noteq> 10) r = [] \<or> dropWhile (\<lambda>c. c \<noteq> 10) r = [10])"

definition comment_body :: "pystr \<Rightarrow> pystr option" where
  "comment_body line =
     (let r = dropWhile is_space line
      in if startswith r (py ''//'')
            \<and> \<not> startswith (drop 2 r) (py ''/'') \<and> \<not> startswith (drop 2 r) (py ''!'')
         then Some (drop 2 r) else None)"

text \<open>A line with one more marker character after the marker that follows its indent.\<close>

definition slash :: "pystr \<Rightarrow> pystr" where
  "slash line =
     (let indent = takeWhile is_space line
      in indent @ py ''///'' @ drop (length indent + 2) line)"

text \<open>
  The scan as one pass over the lines, with a flag for being inside a continuation run:
  a line is rewritten when it is a trigger, or a plain comment inside a run.
\<close>

fun scan :: "bool \<Rightarrow> pystr list \<Rightarrow> pystr list" where
  "scan in_run [] = []"
| "scan in_run (line # rest) =
     (if (in_run \<and> following line) \<or> trigger line
      then slash line # scan True rest
      else line # scan False rest)"

text \<open>
  Line \<open>i\<close> is part of a matched block: it is a trigger line, or a plain comment line right
  after a line of a block.
\<close>

fun in_block :: "pystr list \<Rightarrow> nat \<Rightarrow> bool" where
  "in_block lines 0 = trigger (lines ! 0)"
| "in_block lines (Suc i) =
     (trigger (lines ! Suc i) \<or> (in_block lines i \<and> following (lines ! Suc i)))"

text \<open>The same when the scan starts inside a run (\<open>in_run\<close>) at the first line.\<close>

fun in_block_from :: "bool \<Rightarrow> pystr list \<Rightarrow> nat \<Rightarrow> bool" where
  "in_block_from in_run lines 0 = (trigger (lines ! 0) \<or> (in_run \<and> following (lines ! 0)))"
| "in_block_from in_run lines (Suc i) =
     (trigger (lines ! Suc i) \<or> (in_block_from in_run lines i \<and> following (lines ! Suc i)))"

text \<open>Blank lines, lines that are no comment, and lines already in documentation form.\<close>

definition blank_line :: "pystr \<Rightarrow> bool" where
  "blank_line line = (dropWhile is_space line = [])"

definition non_comment_line :: "pystr \<Rightarrow> bool" where
  "non_comment_line line = (\<not> startswith (dropWhile is_space line) (py ''//''))"

definition doc_comment_line :: "pystr \<Rightarrow> bool" where
  "doc_comment_line line =
     (startswith (dropWhile is_space line) (py ''///'')
      \<or> startswith (dropWhile is_space line) (py ''//!''))"

text \<open>
  The trigger pattern as the specification words it, to compare with
  \<open>SAFETY_START_RE\<close>: leading white space, the marker not followed by a third marker
  character or \<^verbatim>\<open>!\<close>, at most one white space character, the tag, any text.
\<close>

definition spec_trigger_form :: "pystr \<Rightarrow> bool" where
  "spec_trigger_form line =
     (let r = dropWhile is_space line; b = drop 2 r
      in startswith r (py ''//'')
         \<and> \<not> startswith b (py ''/'') \<and> \<not> startswith b (py ''!'')
         \<and> (startswith b (py ''SAFETY:'')
              \<or> (list_all is_space (take 1 b) \<and> startswith (drop 1 b) (py ''SAFETY:''))))"

text \<open>A text whose only line boundaries are LF.\<close>

definition lf_only :: "pystr \<Rightarrow> bool" where
  "lf_only s = list_all (\<lambda>c. is_linebreak c \<longrightarrow> c = 10) s"

text \<open>The first example of the specification: a block of two lines before a function.\<close>

definition scenario1 :: pystr where
  "scenario1 =
     py ''    // SAFETY: caller ensures validity'' @ [10] @ py ''    // see also docs'' @ [10]
     @ py ''fn f() {}'' @ [10]"

text \<open>The path an event touches, and a path that lies below a pruned directory of the walk.\<close>

fun event_path :: "event \<Rightarrow> path option" where
  "event_path (ReadText p) = Some p"
| "event_path (WriteText p new_src) = Some p"
| "event_path (Print msg) = None"

definition below_skipped :: "path \<Rightarrow> path \<Rightarrow> bool" where
  "below_skipped root p =
     (take (length root) p = root
      \<and> list_ex (\<lambda>name. name \<in> set skip_names) (butlast (drop (length root) p)))"

text \<open>
  A path below \<open>d\<close> none of whose directories, from \<open>d\<close> down, has a name of the skip
  set.
\<close>

definition kept_path :: "path \<Rightarrow> path \<Rightarrow> bool" where
  "kept_path d p =
     (\<exists>rel. p = d @ rel \<and> rel \<noteq> [] \<and> (\<forall>name\<in>set (butlast rel). name \<notin> set skip_names))"

text \<open>Every file of the tree can be written.\<close>

fun all_writable :: "fs_entry \<Rightarrow> bool" where
  "all_writable (File name content writable) = writable"
| "all_writable (Dir name sub) = (\<forall>e\<in>set sub. all_writable e)"

text \<open>
  The fifth example of the specification: \<^verbatim>\<open>target/generated.rs\<close> and \<^verbatim>\<open>src/lib.rs\<close>,
  each with a block; and a tree with a file that cannot be read.
\<close>

definition scenario5 :: "fs_entry list" where
  "scenario5 =
     [Dir (py ''target'') [File (py ''generated.rs'') (Inr (py ''// SAFETY: x'')) True],
      Dir (py ''src'') [File (py ''lib.rs'') (Inr (py ''// SAFETY: x'')) True]]"

definition unreadable_tree :: "fs_entry list" where
  "unreadable_tree =
     [File (py ''a.rs'') (Inl (py ''denied'')) True,
      File (py ''b.rs'') (Inr (py ''// SAFETY: x'')) True]"

section \<open>The patterns, step by step\<close>

lemma first_some_all_None: "\<forall>x\<in>set xs. x = None \<Longrightarrow> first_some xs = None"
  by (induction xs) simp_all

lemma first_some_rev_upt:
  assumes "\<And>n. n < k \<Longrightarrow> f n = None"
  shows "first_some (map f (rev [0 ..< Suc k])) = f k"
proof -
  have "first_some (map f (rev [0 ..< k])) = None"
    by (rule first_some_all_None) (simp add: assms)
  then show ?thesis by (cases "f k") simp_all
qed

lemma drop_in_takeWhile:
  assumes "n < length (takeWhile P s)"
  shows "\<exists>c t. drop n s = c # t \<and> P c"
proof -
  have len: "n < length s"
    using assms length_takeWhile_le [of P s] by linarith
  have "takeWhile P s ! n \<in> set (takeWhile P s)"
    using assms by (rule nth_mem)
  then have "P (takeWhile P s ! n)" by (rule set_takeWhileD [THEN conjunct2])
  then have "P (s ! n)" using assms by (simp add: takeWhile_nth)
  moreover have "drop n s = s ! n # drop (Suc n) s"
    using len by (simp add: Cons_nth_drop_Suc)
  ultimately show ?thesis by blast
qed

lemma star_det:
  assumes "\<And>c t. cls_mem cl c \<Longrightarrow> rmatch rs (c # t) = None"
  shows "rmatch (Star cl # rs) s = rmatch rs (dropWhile (cls_mem cl) s)"
proof -
  let ?k = "length (takeWhile (cls_mem cl) s)"
  have "rmatch rs (drop n s) = None" if "n < ?k" for n
    using drop_in_takeWhile [OF that] assms by auto
  then have "first_some (map (\<lambda>n. rmatch rs (drop n s)) (rev [0 ..< Suc ?k]))
             = rmatch rs (drop ?k s)"
    by (rule first_some_rev_upt)
  then show ?thesis by (simp add: rmatch.simps(3) dropWhile_eq_drop)
qed

lemma groupstar_det:
  assumes "\<And>c t. cls_mem cl c \<Longrightarrow> rmatch rs (c # t) = None"
  shows "rmatch (GroupStar g cl # rs) s =
         map_option (\<lambda>m. (g, takeWhile (cls_mem cl) s) # m) (rmatch rs (dropWhile (cls_mem cl) s))"
proof -
  let ?k = "length (takeWhile (cls_mem cl) s)"
  let ?f = "\<lambda>n. map_option (\<lambda>m. (g, take n s) # m) (rmatch rs (drop n s))"
  have "?f n = None" if "n < ?k" for n
    using drop_in_takeWhile [OF that] assms by auto
  then have "first_some (map ?f (rev [0 ..< Suc ?k])) = ?f ?k"
    by (rule first_some_rev_upt)
  then show ?thesis
    by (simp add: rmatch.simps(4) dropWhile_eq_drop takeWhile_eq_take [symmetric])
qed


lemma py_lits:
  "py ''//'' = [47, 47]" "py ''/'' = [47]" "py ''!'' = [33]" "py ''///'' = [47, 47, 47]"
  "py ''SAFETY:'' = [83, 65, 70, 69, 84, 89, 58]"
  by (simp_all add: py_def)

lemma startswith_simps:
  "startswith s [] = True"
  "startswith [] (d # p) = False"
  "startswith (c # t) (d # p) = (c = d \<and> startswith t p)"
  by (auto simp: startswith_def)

lemma not_space_marks: "\<not> is_space 47" "\<not> is_space 83" "\<not> is_space 33"
  by (simp_all add: is_space_def)

lemma cls_mem_funs: "cls_mem Space = is_space" "cls_mem Dot = (\<lambda>c. c \<noteq> 10)"
  by (rule ext, simp)+

lemma eol_fail: "cls_mem Dot c \<Longrightarrow> rmatch [Eol] (c # t) = None"
  by (simp add: rmatch.simps(6))


lemma eol_match: "rmatch [Eol] s = (if s = [] \<or> s = [10] then Some [] else None)"
  by (simp add: rmatch.simps(1,6))


lemma eol_tail: "rmatch [Star Dot, Eol] s = (if eol_ok s then Some [] else None)"
proof -
  have "rmatch [Star Dot, Eol] s = rmatch [Eol] (dropWhile (cls_mem Dot) s)"
    by (rule star_det) (rule eol_fail)
  then show ?thesis by (simp add: eol_match cls_mem_funs eol_ok_def)
qed

lemma eol_group_tail:
  "rmatch [GroupStar g Dot, Eol] s =
     (if eol_ok s then Some [(g, takeWhile (\<lambda>c. c \<noteq> 10) s)] else None)"
proof -
  have "rmatch [GroupStar g Dot, Eol] s =
      map_option (\<lambda>m. (g, takeWhile (cls_mem Dot) s) # m) (rmatch [Eol] (dropWhile (cls_mem Dot) s))"
    by (rule groupstar_det) (rule eol_fail)
  then show ?thesis by (auto simp: eol_match cls_mem_funs eol_ok_def)
qed

lemma py_len: "length (py ''//'') = 2" "length (py ''SAFETY:'') = 7"
  by (simp_all add: py_def)

lemma lit_fail:
  "cls_mem Space c \<Longrightarrow> rmatch (Lit (py ''//'') # rs) (c # t) = None"
  "cls_mem Space c \<Longrightarrow> rmatch (Lit (py ''SAFETY:'') # rs) (c # t) = None"
  using not_space_marks by (auto simp: rmatch.simps(2) py_lits startswith_simps)

lemma marker_step:
  "rmatch (Lit (py ''//'') # NotAhead [py ''/'', py ''!''] # rs) r =
     (if startswith r (py ''//'')
         \<and> \<not> startswith (drop 2 r) (py ''/'') \<and> \<not> startswith (drop 2 r) (py ''!'')
      then rmatch rs (drop 2 r) else None)"
  by (simp add: rmatch.simps(2,5) py_len)

lemma following_match:
  "rmatch FOLLOWING_COMMENT_RE line =
     (case comment_body line of
        None \<Rightarrow> None
      | Some r \<Rightarrow> if eol_ok r
                  then Some [(''indent'', takeWhile is_space line),
                             (''rest'', takeWhile (\<lambda>c. c \<noteq> 10) r)]
                  else None)"
proof -
  let ?rs = "[Lit (py ''//''), NotAhead [py ''/'', py ''!''], GroupStar ''rest'' Dot, Eol]"
  have "rmatch (GroupStar ''indent'' Space # ?rs) line =
        map_option (\<lambda>m. (''indent'', takeWhile (cls_mem Space) line) # m)
          (rmatch ?rs (dropWhile (cls_mem Space) line))"
    by (rule groupstar_det) (rule lit_fail)
  then show ?thesis
    unfolding FOLLOWING_COMMENT_RE_def
    by (simp add: marker_step eol_group_tail cls_mem_funs comment_body_def Let_def)
qed

lemma safety_tail:
  "rmatch [Star Space, Lit (py ''SAFETY:''), Star Dot, Eol] r =
     (if startswith (dropWhile is_space r) (py ''SAFETY:'')
         \<and> eol_ok (drop 7 (dropWhile is_space r))
      then Some [] else None)"
proof -
  have "rmatch (Star Space # [Lit (py ''SAFETY:''), Star Dot, Eol]) r =
        rmatch [Lit (py ''SAFETY:''), Star Dot, Eol] (dropWhile (cls_mem Space) r)"
    by (rule star_det) (rule lit_fail)
  then show ?thesis
    by (simp add: rmatch.simps(2) eol_tail cls_mem_funs py_len)
qed

lemma trigger_match:
  "rmatch SAFETY_START_RE line =
     (case comment_body line of
        None \<Rightarrow> None
      | Some r \<Rightarrow> if startswith (dropWhile is_space r) (py ''SAFETY:'')
                     \<and> eol_ok (drop 7 (dropWhile is_space r))
                  then Some [(''indent'', takeWhile is_space line)]
                  else None)"
proof -
  let ?rs = "[Lit (py ''//''), NotAhead [py ''/'', py ''!''],
              Star Space, Lit (py ''SAFETY:''), Star Dot, Eol]"
  have "rmatch (GroupStar ''indent'' Space # ?rs) line =
        map_option (\<lambda>m. (''indent'', takeWhile (cls_mem Space) line) # m)
          (rmatch ?rs (dropWhile (cls_mem Space) line))"
    by (rule groupstar_det) (rule lit_fail)
  then show ?thesis
    unfolding SAFETY_START_RE_def
    by (simp add: marker_step safety_tail cls_mem_funs comment_body_def Let_def)
qed

section \<open>The loops, iteration by iteration\<close>

lemma rewrite_following: "rmatch FOLLOWING_COMMENT_RE line = Some m \<Longrightarrow> rewrite m line = slash line"
  by (auto simp: following_match rewrite_def slash_def group_def
           split: option.splits if_splits)

lemma rewrite_trigger: "rmatch SAFETY_START_RE line = Some m \<Longrightarrow> rewrite m line = slash line"
  by (auto simp: trigger_match rewrite_def slash_def group_def
           split: option.splits if_splits)

lemma drop_eq_ConsD:
  assumes "drop j xs = y # ys"
  shows "j < length xs" "xs ! j = y" "drop (Suc j) xs = ys"
proof -
  show len: "j < length xs"
    using assms by (cases "j < length xs") simp_all
  from Cons_nth_drop_Suc [OF len] assms show "xs ! j = y" "drop (Suc j) xs = ys"
    by simp_all
qed

lemma inner_loop_run:
  "drop j lines = xs \<Longrightarrow>
   inner_loop lines j out =
     Some (j + length (takeWhile following xs), out @ map slash (takeWhile following xs))"
proof (induction xs arbitrary: j out)
  case Nil
  then have "\<not> j < length lines" by simp
  then show ?case by (subst inner_loop.simps) simp
next
  case (Cons x xs)
  note d = drop_eq_ConsD [OF Cons.prems]
  show ?case
  proof (cases "rmatch FOLLOWING_COMMENT_RE x")
    case None
    then show ?thesis
      using d by (subst inner_loop.simps) (simp add: following_def)
  next
    case (Some m2)
    have "inner_loop lines j out = inner_loop lines (Suc j) (out @ [rewrite m2 x])"
      using d Some by (subst inner_loop.simps) simp
    also have "\<dots> = Some (Suc j + length (takeWhile following xs),
                          (out @ [rewrite m2 x]) @ map slash (takeWhile following xs))"
      by (rule Cons.IH) (rule d)
    finally show ?thesis
      using Some by (simp add: following_def [of x] rewrite_following)
  qed
qed

lemma scan_run:
  "scan True xs = map slash (takeWhile following xs) @ scan False (dropWhile following xs)"
proof (induction xs)
  case Nil
  show ?case by simp
next
  case (Cons x xs)
  show ?case
  proof (cases "following x")
    case True
    with Cons.IH show ?thesis by simp
  next
    case False
    then show ?thesis by simp
  qed
qed

lemma outer_body_run:
  assumes "drop i lines = x # xs"
  shows "outer_body lines i out changed =
     (if trigger x
      then Some (Suc i + length (takeWhile following xs),
                 out @ slash x # map slash (takeWhile following xs), True)
      else Some (Suc i, out @ [x], changed))"
proof -
  note d = drop_eq_ConsD [OF assms]
  show ?thesis
  proof (cases "rmatch SAFETY_START_RE x")
    case None
    then show ?thesis using d by (simp add: outer_body_def trigger_def)
  next
    case (Some m)
    have "inner_loop lines (i + 1) (out @ [rewrite m x]) =
          Some (Suc i + length (takeWhile following xs),
                (out @ [rewrite m x]) @ map slash (takeWhile following xs))"
      using inner_loop_run [of "Suc i" lines xs] d by simp
    then show ?thesis
      using d Some by (simp add: outer_body_def trigger_def rewrite_trigger)
  qed
qed

lemma outer_loop_scan:
  "outer_loop lines i out changed =
     Some (out @ scan False (drop i lines), changed \<or> list_ex trigger (drop i lines))"
proof (induction "length lines - i" arbitrary: i out changed rule: less_induct)
  case less
  show ?case
  proof (cases "drop i lines")
    case Nil
    then have "\<not> i < length lines" by simp
    then show ?thesis using Nil by (subst outer_loop.simps) simp
  next
    case (Cons x xs)
    note d = drop_eq_ConsD [OF Cons]
    show ?thesis
    proof (cases "trigger x")
      case False
      have "outer_loop lines i out changed = outer_loop lines (Suc i) (out @ [x]) changed"
        using d outer_body_run [OF Cons] False by (subst outer_loop.simps) simp
      also have "\<dots> = Some ((out @ [x]) @ scan False (drop (Suc i) lines),
                            changed \<or> list_ex trigger (drop (Suc i) lines))"
        by (rule less) (use d in simp)
      finally show ?thesis using False d Cons by simp
    next
      case True
      let ?k = "length (takeWhile following xs)"
      let ?j = "Suc i + ?k"
      let ?out = "out @ slash x # map slash (takeWhile following xs)"
      have "outer_loop lines i out changed = outer_loop lines ?j ?out True"
        using d outer_body_run [OF Cons] True by (subst outer_loop.simps) simp
      also have "\<dots> = Some (?out @ scan False (drop ?j lines),
                            True \<or> list_ex trigger (drop ?j lines))"
        by (rule less) (use d in simp)
      also have "drop ?j lines = dropWhile following xs"
      proof -
        have "drop ?k (drop (Suc i) lines) = drop ?j lines"
          by (simp add: add.commute)
        then show ?thesis using d(3) by (simp add: dropWhile_eq_drop)
      qed
      finally show ?thesis using True Cons by (simp add: scan_run)
    qed
  qed
qed


section \<open>The whole text: lines, joining, and back\<close>

lemma transform_content_scan:
  "transform_content text =
     Some (join_nl (scan False (splitlines text)) @ (if endswith text [10] then [10] else []),
           list_ex trigger (splitlines text))"
  by (simp add: transform_content_def outer_loop_scan Let_def)

lemma splitlines_Nil: "splitlines [] = []"
  by (simp add: splitlines.simps)

lemma splitlines_Cons:
  "s \<noteq> [] \<Longrightarrow>
   splitlines s = takeWhile (\<lambda>c. \<not> is_linebreak c) s
                    # splitlines (skip_break (dropWhile (\<lambda>c. \<not> is_linebreak c) s))"
  by (subst splitlines.simps) simp

lemma splitlines_break_free:
  "line \<in> set (splitlines s) \<Longrightarrow> c \<in> set line \<Longrightarrow> \<not> is_linebreak c"
proof (induction s rule: splitlines.induct)
  case (1 s)
  show ?case
  proof (cases "s = []")
    case True
    with 1 show ?thesis by (simp add: splitlines_Nil)
  next
    case False
    from "1.prems"(1) have "line = takeWhile (\<lambda>c. \<not> is_linebreak c) s
        \<or> line \<in> set (splitlines (skip_break (dropWhile (\<lambda>c. \<not> is_linebreak c) s)))"
      by (simp add: splitlines_Cons [OF False])
    then show ?thesis
    proof
      assume "line = takeWhile (\<lambda>c. \<not> is_linebreak c) s"
      with "1.prems"(2) show ?thesis by (auto dest: set_takeWhileD)
    next
      assume "line \<in> set (splitlines (skip_break (dropWhile (\<lambda>c. \<not> is_linebreak c) s)))"
      then show ?thesis using "1.IH" [OF False] "1.prems"(2) by simp
    qed
  qed
qed

lemma slash_shape:
  "slash line = takeWhile is_space line @ py ''///'' @ drop 2 (dropWhile is_space line)"
proof -
  have "drop (length (takeWhile is_space line) + 2) line
        = drop 2 (drop (length (takeWhile is_space line)) line)"
    by (simp add: add.commute)
  then show ?thesis by (simp add: slash_def Let_def dropWhile_eq_drop)
qed

lemma dropWhile_space_slash:
  "dropWhile is_space (slash line) = py ''///'' @ drop 2 (dropWhile is_space line)"
proof -
  have "dropWhile is_space (takeWhile is_space line @ r) = dropWhile is_space r" for r
    by (rule dropWhile_append2) (auto dest: set_takeWhileD)
  then show ?thesis
    using not_space_marks by (simp add: slash_shape py_lits)
qed

lemma comment_body_slash: "comment_body (slash line) = None"
  by (simp add: comment_body_def dropWhile_space_slash py_lits startswith_simps)

lemma slash_not_matched: "\<not> trigger (slash line)" "\<not> following (slash line)"
  by (simp_all add: trigger_def following_def trigger_match following_match comment_body_slash)

lemma trigger_Nil: "\<not> trigger []"
  by (simp add: trigger_def trigger_match comment_body_def py_lits startswith_simps)

lemma scan_no_trigger: "l \<in> set (scan b lines) \<Longrightarrow> \<not> trigger l"
  by (induction lines arbitrary: b) (auto simp: slash_not_matched split: if_splits)

lemma scan_id: "\<forall>l\<in>set lines. \<not> trigger l \<Longrightarrow> scan False lines = lines"
  by (induction lines) simp_all

lemma length_scan: "length (scan b lines) = length lines"
  by (induction lines arbitrary: b) simp_all

lemma slash_chars: "c \<in> set (slash line) \<Longrightarrow> c \<in> set line \<or> c = 47"
  by (auto simp: slash_shape py_lits dest: set_takeWhileD set_dropWhileD in_set_dropD)

lemma scan_chars:
  "l \<in> set (scan b lines) \<Longrightarrow> c \<in> set l \<Longrightarrow> c = 47 \<or> (\<exists>l'\<in>set lines. c \<in> set l')"
  by (induction lines arbitrary: b) (auto split: if_splits dest: slash_chars)


lemma break_free_take:
  assumes "\<forall>c\<in>set x. \<not> is_linebreak c" "is_linebreak b"
  shows "takeWhile (\<lambda>c. \<not> is_linebreak c) (x @ b # r) = x"
    and "dropWhile (\<lambda>c. \<not> is_linebreak c) (x @ b # r) = b # r"
  using assms by simp_all

lemma break_free_all:
  assumes "\<forall>c\<in>set x. \<not> is_linebreak c"
  shows "takeWhile (\<lambda>c. \<not> is_linebreak c) x = x"
    and "dropWhile (\<lambda>c. \<not> is_linebreak c) x = []"
  using assms by simp_all

lemma linebreak_10: "is_linebreak 10"
  by (simp add: is_linebreak_def)

lemma skip_break_lf: "skip_break (10 # r) = r"
  by (cases r) (simp_all add: skip_break_def)

lemma skip_break_Nil: "skip_break [] = []"
  by (simp add: skip_break_def)

lemma splitlines_single:
  assumes "x \<noteq> []" "\<forall>c\<in>set x. \<not> is_linebreak c"
  shows "splitlines x = [x]"
  by (simp add: splitlines_Cons [OF assms(1)] break_free_all [OF assms(2)] skip_break_Nil
        splitlines_Nil)

lemma splitlines_join:
  assumes "\<forall>l\<in>set ls. \<forall>c\<in>set l. \<not> is_linebreak c" "e = [] \<or> e = [10]"
  shows "set (splitlines (join_nl ls @ e)) \<subseteq> insert [] (set ls)"
  using assms(1)
proof (induction ls rule: join_nl.induct)
  case 1
  from assms(2) show ?case
  proof
    assume "e = []" then show ?thesis by (simp add: splitlines_Nil)
  next
    assume t: "e = [10]"
    have "splitlines [10] = [Nil]"
      by (simp add: splitlines_Cons splitlines_Nil linebreak_10 skip_break_lf)
    with t show ?thesis by simp
  qed
next
  case (2 x)
  then have bf: "\<forall>c\<in>set x. \<not> is_linebreak c" by simp
  from assms(2) show ?case
  proof
    assume t: "e = []"
    show ?thesis
    proof (cases "x = []")
      case True with t show ?thesis by (simp add: splitlines_Nil)
    next
      case False
      then have "splitlines x = [x]"
        using bf by (rule splitlines_single)
      with t show ?thesis by simp
    qed
  next
    assume t: "e = [10]"
    have "splitlines (x @ [10]) = [x]"
      using break_free_take [OF bf linebreak_10, of "[]"]
      by (simp add: splitlines_Cons splitlines_Nil skip_break_lf)
    with t show ?thesis by simp
  qed
next
  case (3 x y zs)
  then have bf: "\<forall>c\<in>set x. \<not> is_linebreak c" by simp
  have "splitlines (x @ 10 # (join_nl (y # zs) @ e))
        = x # splitlines (join_nl (y # zs) @ e)"
    using break_free_take [OF bf linebreak_10, of "join_nl (y # zs) @ e"]
    by (simp add: splitlines_Cons [of "x @ 10 # (join_nl (y # zs) @ e)"] skip_break_lf)
  moreover have "set (splitlines (join_nl (y # zs) @ e)) \<subseteq> insert [] (set (y # zs))"
    using 3 by simp
  ultimately show ?case by auto
qed

lemma join_nl_chars: "c \<in> set (join_nl ls) \<Longrightarrow> c = 10 \<or> (\<exists>l\<in>set ls. c \<in> set l)"
  by (induction ls rule: join_nl.induct) auto

lemma endswith_single: "endswith s [c] = (s \<noteq> [] \<and> last s = c)"
proof (cases s rule: rev_cases)
  case Nil
  then show ?thesis by (simp add: endswith_def)
next
  case (snoc ys y)
  then show ?thesis by (simp add: endswith_def)
qed

lemma splitlines_not_Nil: "s \<noteq> [] \<Longrightarrow> splitlines s \<noteq> []"
  by (simp add: splitlines_Cons)

lemma join_nl_Cons: "ls \<noteq> [] \<Longrightarrow> join_nl (x # ls) = x @ 10 # join_nl ls"
  by (cases ls) simp_all

lemma lf_roundtrip:
  "lf_only s \<Longrightarrow> join_nl (splitlines s) @ (if endswith s [10] then [10] else []) = s"
proof (induction s rule: splitlines.induct)
  case (1 s)
  let ?nb = "\<lambda>c. \<not> is_linebreak c"
  show ?case
  proof (cases "s = []")
    case True
    then show ?thesis by (simp add: splitlines_Nil endswith_single)
  next
    case False
    have split: "s = takeWhile ?nb s @ dropWhile ?nb s" by simp
    show ?thesis
    proof (cases "dropWhile ?nb s")
      case Nil
      then have all: "\<forall>c\<in>set s. \<not> is_linebreak c" by simp
      then have "\<not> is_linebreak (last s)" using False by simp
      then have "last s \<noteq> 10" using linebreak_10 by auto
      moreover have "splitlines s = [s]"
        using False all by (rule splitlines_single)
      ultimately show ?thesis by (simp add: endswith_single)
    next
      case (Cons b r)
      have "is_linebreak b"
        using hd_dropWhile [of ?nb s] Cons by simp
      moreover have "b \<in> set s"
        using Cons set_dropWhileD [of b ?nb s] by simp
      ultimately have b: "b = 10"
        using "1.prems" by (simp add: lf_only_def list_all_iff)
      have s_eq: "s = takeWhile ?nb s @ 10 # r"
        using split Cons b by simp
      have sk: "skip_break (dropWhile ?nb s) = r"
        using Cons b by (simp add: skip_break_lf)
      have "list_all (\<lambda>c. is_linebreak c \<longrightarrow> c = 10) (takeWhile ?nb s @ dropWhile ?nb s)"
        using "1.prems" by (simp add: lf_only_def)
      then have "lf_only r"
        unfolding Cons by (simp add: lf_only_def)
      then have IH: "join_nl (splitlines r) @ (if endswith r [10] then [10] else []) = r"
        using "1.IH" [OF False] sk by simp
      have sp: "splitlines s = takeWhile ?nb s # splitlines r"
        using sk by (simp add: splitlines_Cons [OF False])
      show ?thesis
      proof (cases "r = []")
        case True
        have "endswith s [10]"
          by (subst s_eq) (simp add: endswith_single True)
        then show ?thesis using sp True s_eq by (simp add: splitlines_Nil)
      next
        case False
        have "endswith s [10] = endswith r [10]"
          by (subst s_eq) (simp add: endswith_single False)
        moreover have "join_nl (splitlines s) = takeWhile ?nb s @ 10 # join_nl (splitlines r)"
          using sp splitlines_not_Nil [OF False] by (simp add: join_nl_Cons)
        ultimately have "join_nl (splitlines s) @ (if endswith s [10] then [10] else [])
            = takeWhile ?nb s @ 10 # (join_nl (splitlines r) @ (if endswith r [10] then [10] else []))"
          by simp
        also have "\<dots> = takeWhile ?nb s @ 10 # r" by (simp only: IH)
        also have "\<dots> = s" using s_eq by simp
        finally show ?thesis .
      qed
    qed
  qed
qed


lemma not_linebreak_47: "\<not> is_linebreak 47"
  by (simp add: is_linebreak_def)

lemma scan_break_free:
  assumes "l \<in> set (scan b (splitlines text))" "c \<in> set l"
  shows "\<not> is_linebreak c"
  using scan_chars [OF assms] not_linebreak_47 splitlines_break_free by auto


text \<open>
  On a text whose only line boundaries are LF, an unchanged result is the input itself.
\<close>

lemma transform_content_unchanged_lf:
  assumes "lf_only text" "transform_content text = Some (result, False)"
  shows "result = text"
proof -
  from assms(2) have "\<forall>l\<in>set (splitlines text). \<not> trigger l"
    by (simp add: transform_content_scan list_ex_iff)
  then have "scan False (splitlines text) = splitlines text"
    by (rule scan_id)
  with assms(2) have "result = join_nl (splitlines text) @ (if endswith text [10] then [10] else [])"
    by (simp add: transform_content_scan)
  then show ?thesis by (simp only: lf_roundtrip [OF assms(1)])
qed

section \<open>Blocks and line classes\<close>

lemma in_block_from_False: "in_block_from False lines i = in_block lines i"
  by (induction i) simp_all

lemma in_block_from_Cons:
  "in_block_from b (x # xs) (Suc i) = in_block_from ((b \<and> following x) \<or> trigger x) xs i"
  by (induction i) auto

lemma scan_Cons_flag:
  "c = ((b \<and> following x) \<or> trigger x) \<Longrightarrow>
   scan b (x # xs) = (if c then slash x else x) # scan c xs"
  by (cases c) auto

lemma scan_nth_from:
  "i < length lines \<Longrightarrow>
   scan b lines ! i = (if in_block_from b lines i then slash (lines ! i) else lines ! i)"
proof (induction lines arbitrary: b i)
  case Nil
  then show ?case by simp
next
  case (Cons x xs)
  show ?case
  proof (cases i)
    case 0
    then show ?thesis by auto
  next
    case (Suc k)
    with Cons.prems have k: "k < length xs" by simp
    let ?c = "(b \<and> following x) \<or> trigger x"
    have "scan b (x # xs) ! i = scan ?c xs ! k"
      unfolding Suc scan_Cons_flag [OF refl] by simp
    also have "\<dots> = (if in_block_from ?c xs k then slash (xs ! k) else xs ! k)"
      by (rule Cons.IH [OF k])
    also have "in_block_from ?c xs k = in_block_from b (x # xs) i"
      unfolding Suc by (rule in_block_from_Cons [symmetric])
    finally show ?thesis
      using Suc by (simp del: in_block_from.simps)
  qed
qed

lemma scan_nth:
  "i < length lines \<Longrightarrow>
   scan False lines ! i = (if in_block lines i then slash (lines ! i) else lines ! i)"
  by (simp add: scan_nth_from in_block_from_False)

lemma startswith_split: "startswith s p \<Longrightarrow> s = p @ drop (length p) s"
  unfolding startswith_def by (metis append_take_drop_id)

lemma comment_body_split:
  assumes "comment_body line = Some r"
  shows "line = takeWhile is_space line @ py ''//'' @ r"
    and "slash line = takeWhile is_space line @ py ''//'' @ py ''/'' @ r"
proof -
  from assms have sw: "startswith (dropWhile is_space line) (py ''//'')"
    and r: "r = drop 2 (dropWhile is_space line)"
    by (auto simp: comment_body_def Let_def split: if_splits)
  from startswith_split [OF sw] have "dropWhile is_space line = py ''//'' @ r"
    by (simp add: r py_len)
  then have "takeWhile is_space line @ dropWhile is_space line
             = takeWhile is_space line @ py ''//'' @ r"
    by simp
  then show "line = takeWhile is_space line @ py ''//'' @ r" by simp
  show "slash line = takeWhile is_space line @ py ''//'' @ py ''/'' @ r"
    by (simp add: slash_shape r py_lits)
qed

lemma matched_comment_body:
  "trigger line \<Longrightarrow> comment_body line \<noteq> None"
  "following line \<Longrightarrow> comment_body line \<noteq> None"
  by (auto simp: trigger_def following_def trigger_match following_match split: option.splits)

lemma match_indent:
  "rmatch SAFETY_START_RE line = Some m \<Longrightarrow> group m ''indent'' = takeWhile is_space line"
  "rmatch FOLLOWING_COMMENT_RE line = Some m \<Longrightarrow> group m ''indent'' = takeWhile is_space line"
  by (auto simp: trigger_match following_match group_def split: option.splits if_splits)

lemma in_block_matched: "in_block lines i \<Longrightarrow> trigger (lines ! i) \<or> following (lines ! i)"
  by (cases i) auto

lemma startswith_append:
  "startswith s (p @ q) = (startswith s p \<and> startswith (drop (length p) s) q)"
proof (induction p arbitrary: s)
  case Nil
  show ?case by (simp add: startswith_simps)
next
  case (Cons a p)
  show ?case by (cases s) (simp_all add: startswith_simps Cons.IH)
qed

lemma doc_markers: "py ''///'' = py ''//'' @ py ''/''" "py ''//!'' = py ''//'' @ py ''!''"
  by (simp_all add: py_def)

lemma blank_non_comment: "blank_line line \<Longrightarrow> non_comment_line line"
proof -
  assume "blank_line line"
  then have e: "dropWhile is_space line = []" by (simp only: blank_line_def)
  show ?thesis
    unfolding non_comment_line_def e by (simp add: py_lits startswith_simps)
qed

lemma unmatched_classes:
  "non_comment_line line \<Longrightarrow> comment_body line = None"
  "doc_comment_line line \<Longrightarrow> comment_body line = None"
  by (auto simp: non_comment_line_def doc_comment_line_def comment_body_def
        doc_markers startswith_append py_len)

lemma not_matched:
  "comment_body line = None \<Longrightarrow> \<not> trigger line"
  "comment_body line = None \<Longrightarrow> \<not> following line"
  by (simp_all add: trigger_def following_def trigger_match following_match)

text \<open>In a line without LF nothing else fails to be a plain comment.\<close>

lemma unmatched_line_classes:
  assumes "10 \<notin> set line" "\<not> following line"
  shows "non_comment_line line \<or> doc_comment_line line"
proof (cases "comment_body line")
  case None
  then show ?thesis
    by (auto simp: comment_body_def Let_def non_comment_line_def doc_comment_line_def
          doc_markers startswith_append py_len split: if_splits)
next
  case (Some r)
  then have "r = drop 2 (dropWhile is_space line)"
    by (auto simp: comment_body_def Let_def split: if_splits)
  then have "10 \<notin> set r"
    using assms(1) by (auto dest: in_set_dropD set_dropWhileD)
  then have "eol_ok r" by (auto simp: eol_ok_def)
  with Some assms(2) show ?thesis
    by (simp add: following_def following_match)
qed

lemma inner_loop_stops:
  assumes "i < length lines" "\<not> following (lines ! i)"
  shows "inner_loop lines i acc = Some (i, acc)"
proof -
  have d: "drop i lines = lines ! i # drop (Suc i) lines"
    using assms(1) by (simp add: Cons_nth_drop_Suc)
  show ?thesis
    using inner_loop_run [OF d, of acc] assms(2) by simp
qed


lemma transform_content_lines:
  assumes "transform_content text = Some (result, changed)"
  shows "outer_loop (splitlines text) 0 [] False = Some (scan False (splitlines text), changed)"
    and "result = join_nl (scan False (splitlines text)) @ (if endswith text [10] then [10] else [])"
  using assms by (auto simp: transform_content_scan outer_loop_scan)

lemma run_then_tail:
  assumes "list_all following run" "list_all (\<lambda>l. \<not> following l) (take 1 tail)"
  shows "takeWhile following (run @ tail) = run" "dropWhile following (run @ tail) = tail"
proof -
  have t: "takeWhile following tail = []" "dropWhile following tail = tail"
    using assms(2) by (cases tail; simp)+
  have r: "\<And>l. l \<in> set run \<Longrightarrow> following l"
    using assms(1) by (simp add: list_all_iff)
  show "takeWhile following (run @ tail) = run"
    using r by (simp add: takeWhile_append2 t)
  show "dropWhile following (run @ tail) = tail"
    using r by (simp add: dropWhile_append2 t)
qed

section \<open>Evaluating the model on concrete texts\<close>

lemma py_Nil: "py [] = []"
  by (simp add: py_def)

lemma py_Cons: "py (c # cs) = of_char c # py cs"
  by (simp add: py_def)

lemmas line_eval =
  py_Nil py_Cons trigger_def following_def trigger_match following_match comment_body_def
  eol_ok_def is_space_def startswith_simps slash_def Let_def

lemmas text_eval =
  transform_content_scan splitlines_Cons splitlines_Nil is_linebreak_def skip_break_def
  endswith_def

lemma scenario1_lines:
  "splitlines scenario1 =
     [py ''    // SAFETY: caller ensures validity'', py ''    // see also docs'', py ''fn f() {}'']"
  by (simp add: scenario1_def line_eval text_eval)

lemma scenario1_result:
  "transform_content scenario1 =
     Some (py ''    /// SAFETY: caller ensures validity'' @ [10] @ py ''    /// see also docs'' @ [10]
           @ py ''fn f() {}'' @ [10], True)"
  by (simp add: scenario1_def line_eval text_eval)

section \<open>The walk: what it touches, and that it returns\<close>

lemma transform_content_total: "\<exists>new_src changed. transform_content src = Some (new_src, changed)"
  by (simp add: transform_content_scan)

lemma final_state_simps:
  "final_state (Inr st) = st" "final_state (Inl (p, st)) = st"
  by (simp_all add: final_state_def)

lemma events_emit: "events (emit e st) = events st @ [e]"
  by (simp add: emit_def)

lemma process_file_events:
  assumes "process_file dry_run verbose dirpath fname content writable st = Some r"
    and "e \<in> set (events (final_state r))"
  shows "e \<in> set (events st) \<or> event_path e = None \<or> event_path e = Some (dirpath @ [fname])"
proof -
  obtain new_src changed where t: "\<And>src. content = Inr src \<Longrightarrow>
      transform_content src = Some (new_src src, changed src)"
    using transform_content_total by metis
  show ?thesis
    using assms
    by (cases content)
       (auto simp: process_file_def Let_def events_emit final_state_simps t
             split: if_splits)
qed


lemma process_files_events:
  assumes "process_files dry_run verbose dirpath es st = Some r"
    and "e \<in> set (events (final_state r))"
  shows "e \<in> set (events st) \<or> event_path e = None
         \<or> (\<exists>fname. event_path e = Some (dirpath @ [fname]))"
  using assms
proof (induction dry_run verbose dirpath es st rule: process_files.induct)
  case (1 dry_run verbose dirpath st)
  then show ?case by (auto simp: final_state_simps)
next
  case (2 dry_run verbose dirpath name sub es st)
  then show ?case by simp
next
  case (3 dry_run verbose dirpath fname content writable es st)
  show ?case
  proof (cases "process_file dry_run verbose dirpath fname content writable st")
    case None
    with "3.prems" show ?thesis by simp
  next
    case (Some r1)
    show ?thesis
    proof (cases r1)
      case (Inl err)
      with Some "3.prems" have "r = r1" by simp
      with process_file_events [OF Some] "3.prems"(2) show ?thesis by blast
    next
      case (Inr st1)
      with Some "3.prems" have "process_files dry_run verbose dirpath es st1 = Some r" by simp
      from "3.IH" [OF Some Inr this "3.prems"(2)]
      have "e \<in> set (events st1) \<or> event_path e = None
            \<or> (\<exists>fname. event_path e = Some (dirpath @ [fname]))" .
      moreover have "e \<in> set (events st1) \<Longrightarrow>
          e \<in> set (events st) \<or> event_path e = None \<or> event_path e = Some (dirpath @ [fname])"
        using process_file_events [OF Some, of e] Inr by (simp add: final_state_simps)
      ultimately show ?thesis by blast
    qed
  qed
qed

lemma kept_file: "kept_path d (d @ [fname])"
  by (simp add: kept_path_def)

lemma kept_deeper:
  assumes "kept_path (d @ [name]) p" "name \<notin> set skip_names"
  shows "kept_path d p"
proof -
  from assms(1) obtain rel where rel: "p = (d @ [name]) @ rel" "rel \<noteq> []"
    "\<forall>n\<in>set (butlast rel). n \<notin> set skip_names"
    by (auto simp: kept_path_def)
  have "p = d @ (name # rel)" using rel(1) by simp
  moreover have "\<forall>n\<in>set (butlast (name # rel)). n \<notin> set skip_names"
    using rel(2,3) assms(2) by simp
  ultimately show ?thesis unfolding kept_path_def by blast
qed

lemma should_skip_dir_name: "should_skip_dir (d @ [name]) = (name \<in> set skip_names)"
  by (simp add: should_skip_dir_def path_name_def)

lemma walk_events:
  "walk dry_run verbose d es st = Some r \<Longrightarrow> e \<in> set (events (final_state r)) \<Longrightarrow>
     e \<in> set (events st) \<or> event_path e = None \<or> (\<exists>p. event_path e = Some p \<and> kept_path d p)"
  "walk_subdirs dry_run verbose d ds st = Some r \<Longrightarrow> e \<in> set (events (final_state r)) \<Longrightarrow>
     \<forall>x\<in>set ds. entry_name x \<notin> set skip_names \<Longrightarrow>
     e \<in> set (events st) \<or> event_path e = None \<or> (\<exists>p. event_path e = Some p \<and> kept_path d p)"
proof (induction dry_run verbose d es st and dry_run verbose d ds st
       arbitrary: r e and r e rule: walk_walk_subdirs.induct)
  case (1 dry_run verbose dirpath entries st)
  let ?dirnames = "filter (\<lambda>x. \<not> should_skip_dir (dirpath @ [entry_name x]))
                     (filter is_dir entries)"
  have names: "\<forall>x\<in>set ?dirnames. entry_name x \<notin> set skip_names"
    by (simp add: should_skip_dir_name)
  show ?case
  proof (cases "process_files dry_run verbose dirpath entries st")
    case None
    with "1.prems" show ?thesis by (simp add: walk.simps)
  next
    case (Some r1)
    have files: "e' \<in> set (events (final_state r1)) \<Longrightarrow>
        e' \<in> set (events st) \<or> event_path e' = None
        \<or> (\<exists>p. event_path e' = Some p \<and> kept_path dirpath p)" for e'
      using process_files_events [OF Some, of e'] kept_file by blast
    show ?thesis
    proof (cases r1)
      case (Inl err)
      with Some "1.prems" have "r = r1" by (simp add: walk.simps)
      with files "1.prems"(2) show ?thesis by blast
    next
      case (Inr st1)
      with Some "1.prems" have w: "walk_subdirs dry_run verbose dirpath ?dirnames st1 = Some r"
        by (simp add: walk.simps)
      from "1.IH" [OF refl Some Inr w "1.prems"(2) names]
      have "e \<in> set (events st1) \<or> event_path e = None
            \<or> (\<exists>p. event_path e = Some p \<and> kept_path dirpath p)" .
      with files [of e] Inr show ?thesis by (auto simp: final_state_simps)
    qed
  qed
next
  case (2 dry_run verbose dirpath st)
  then show ?case by (auto simp: final_state_simps)
next
  case (3 dry_run verbose dirpath fname content writable ds st)
  then show ?case by simp
next
  case (4 dry_run verbose dirpath name sub ds st)
  from "4.prems"(3) have name: "name \<notin> set skip_names"
    and rest: "\<forall>x\<in>set ds. entry_name x \<notin> set skip_names"
    by simp_all
  show ?case
  proof (cases "walk dry_run verbose (dirpath @ [name]) sub st")
    case None
    with "4.prems" show ?thesis by simp
  next
    case (Some r1)
    have sub: "e' \<in> set (events (final_state r1)) \<Longrightarrow>
        e' \<in> set (events st) \<or> event_path e' = None
        \<or> (\<exists>p. event_path e' = Some p \<and> kept_path dirpath p)" for e'
      using "4.IH"(1) [OF Some] kept_deeper [OF _ name] by blast
    show ?thesis
    proof (cases r1)
      case (Inl err)
      with Some "4.prems" have "r = r1" by simp
      with sub "4.prems"(2) show ?thesis by blast
    next
      case (Inr st1)
      with Some "4.prems" have w: "walk_subdirs dry_run verbose dirpath ds st1 = Some r"
        by simp
      from "4.IH"(2) [OF Some Inr w "4.prems"(2) rest]
      have "e \<in> set (events st1) \<or> event_path e = None
            \<or> (\<exists>p. event_path e = Some p \<and> kept_path dirpath p)" .
      with sub [of e] Inr show ?thesis by (auto simp: final_state_simps)
    qed
  qed
qed

lemma kept_not_below_skipped: "kept_path root p \<Longrightarrow> \<not> below_skipped root p"
  by (auto simp: kept_path_def below_skipped_def list_ex_iff)

lemma process_file_ok:
  assumes "dry_run \<or> writable"
  shows "\<exists>st'. process_file dry_run verbose dirpath fname content writable st = Some (Inr st')"
proof (cases content)
  case (Inl e)
  then show ?thesis by (simp add: process_file_def Let_def)
next
  case (Inr src)
  obtain new_src changed where "transform_content src = Some (new_src, changed)"
    using transform_content_total by blast
  with Inr assms show ?thesis by (auto simp: process_file_def Let_def)
qed

lemma process_files_ok:
  assumes "dry_run \<or> (\<forall>x\<in>set es. all_writable x)"
  shows "\<exists>st'. process_files dry_run verbose dirpath es st = Some (Inr st')"
  using assms
proof (induction es arbitrary: st)
  case Nil
  show ?case by simp
next
  case (Cons x es)
  from Cons.prems have rest: "dry_run \<or> (\<forall>x\<in>set es. all_writable x)" by auto
  show ?case
  proof (cases x)
    case (Dir name sub)
    with Cons.IH [OF rest] show ?thesis by simp
  next
    case (File fname content writable)
    with Cons.prems have "dry_run \<or> writable" by auto
    from process_file_ok [OF this] obtain st1 where
      "process_file dry_run verbose dirpath fname content writable st = Some (Inr st1)"
      by blast
    with Cons.IH [OF rest, of st1] File show ?thesis by simp
  qed
qed

lemma walk_ok:
  "dry_run \<or> (\<forall>x\<in>set es. all_writable x) \<Longrightarrow>
     \<exists>st'. walk dry_run verbose d es st = Some (Inr st')"
  "dry_run \<or> (\<forall>x\<in>set ds. all_writable x) \<Longrightarrow>
     \<exists>st'. walk_subdirs dry_run verbose d ds st = Some (Inr st')"
proof (induction dry_run verbose d es st and dry_run verbose d ds st
       rule: walk_walk_subdirs.induct)
  case (1 dry_run verbose dirpath entries st)
  let ?dirnames = "filter (\<lambda>x. \<not> should_skip_dir (dirpath @ [entry_name x]))
                     (filter is_dir entries)"
  from process_files_ok [OF "1.prems"] obtain st1 where
    f: "process_files dry_run verbose dirpath entries st = Some (Inr st1)"
    by blast
  have "dry_run \<or> (\<forall>x\<in>set ?dirnames. all_writable x)"
    using "1.prems" by auto
  from "1.IH" [OF refl f refl this] f show ?case
    by (simp add: walk.simps)
next
  case (2 dry_run verbose dirpath st)
  show ?case by simp
next
  case (3 dry_run verbose dirpath fname content writable ds st)
  then show ?case by auto
next
  case (4 dry_run verbose dirpath name sub ds st)
  from "4.prems" have "dry_run \<or> (\<forall>x\<in>set sub. all_writable x)" by auto
  from "4.IH"(1) [OF this] obtain st1 where
    w: "walk dry_run verbose (dirpath @ [name]) sub st = Some (Inr st1)"
    by blast
  from "4.prems" have "dry_run \<or> (\<forall>x\<in>set ds. all_writable x)" by auto
  from "4.IH"(2) [OF w refl this] w show ?case by simp
qed

lemmas walk_eval =
  process_repo_def walk.simps walk_subdirs.simps process_files.simps process_file_def
  should_skip_dir_def path_name_def skip_names_def emit_def final_state_def

lemma scenario5_run:
  "process_repo [py ''repo''] False False scenario5 =
     Some (Inr \<lparr>changed_files = 1,
                events = [ReadText [py ''repo'', py ''src'', py ''lib.rs''],
                          WriteText [py ''repo'', py ''src'', py ''lib.rs''] (py ''/// SAFETY: x'')]\<rparr>)"
  by (simp add: scenario5_def walk_eval line_eval text_eval)

lemma unreadable_run:
  "process_repo [py ''repo''] True True unreadable_tree =
     Some (Inr \<lparr>changed_files = 1,
                events = [ReadText [py ''repo'', py ''a.rs''],
                          Print (py ''[skip] repo/a.rs: denied''),
                          ReadText [py ''repo'', py ''b.rs''],
                          Print (py ''[update] (dry-run) repo/b.rs'')]\<rparr>)"
  by (simp add: unreadable_tree_def walk_eval line_eval text_eval skip_msg_def update_msg_def)

section \<open>Properties of transform_content\<close>

text \<open>
  C10. \<open>transform_content\<close> returns on every text. Each iteration of the outer loop
  at a cursor \<open>i\<close> below the number of lines ends with a cursor that is strictly larger
  and at most the number of lines (one further for a line that is no trigger, just past
  the consumed block for a trigger), so the number of lines left decreases.
\<close>

theorem transform_content_terminates:
  "(\<exists>result changed. transform_content text = Some (result, changed))
   \<and> (i < length lines \<longrightarrow>
        (\<exists>i' out' changed'.
           outer_body lines i out changed = Some (i', out', changed')
           \<and> i < i' \<and> i' \<le> length lines))"
proof (intro conjI impI)
  show "\<exists>result changed. transform_content text = Some (result, changed)"
    by (simp add: transform_content_scan)
next
  assume len: "i < length lines"
  have d: "drop i lines = lines ! i # drop (Suc i) lines"
    using len by (simp add: Cons_nth_drop_Suc)
  have "length (takeWhile following (drop (Suc i) lines)) \<le> length (drop (Suc i) lines)"
    by (rule length_takeWhile_le)
  then have "Suc i + length (takeWhile following (drop (Suc i) lines)) \<le> length lines"
    using len by simp
  then show "\<exists>i' out' changed'.
           outer_body lines i out changed = Some (i', out', changed')
           \<and> i < i' \<and> i' \<le> length lines"
    using len by (auto simp: outer_body_run [OF d])
qed

theorem transform_content_terminates_witness:
  "(\<exists>result changed. transform_content (py ''// SAFETY: x'') = Some (result, changed))
   \<and> (0::nat) < length [py ''// SAFETY: x'', py ''// y'', py ''z'']
   \<and> (\<exists>i' out' changed'.
         outer_body [py ''// SAFETY: x'', py ''// y'', py ''z''] 0 [] False
           = Some (i', out', changed')
         \<and> 0 < i' \<and> i' \<le> length [py ''// SAFETY: x'', py ''// y'', py ''z''])"
  using transform_content_terminates
    [of "py ''// SAFETY: x''" 0 "[py ''// SAFETY: x'', py ''// y'', py ''z'']" "[]" False]
  by simp

text \<open>
  C3. \<open>transform_content\<close> is idempotent: applied to its own output text it returns
  that text again, and reports no change. The lines it rewrote are documentation
  comments, which neither pattern matches, and no other line of the output is a trigger.
\<close>

theorem transform_content_idempotent:
  assumes "transform_content text = Some (result, changed)"
  shows "transform_content result = Some (result, False)"
proof -
  let ?out = "scan False (splitlines text)"
  let ?e = "if endswith text [10] then [10] else []"
  have r: "result = join_nl ?out @ ?e"
    using assms by (simp add: transform_content_scan)
  have bf: "\<forall>l\<in>set ?out. \<forall>c\<in>set l. \<not> is_linebreak c"
    using scan_break_free by blast
  have "set (splitlines (join_nl ?out @ ?e)) \<subseteq> insert [] (set ?out)"
    using bf by (rule splitlines_join) simp
  then have nt: "\<forall>l\<in>set (splitlines result). \<not> trigger l"
    using scan_no_trigger trigger_Nil unfolding r by blast
  have "c = 10 \<or> \<not> is_linebreak c" if "c \<in> set result" for c
  proof -
    from that have "c \<in> set (join_nl ?out) \<or> c = 10"
      unfolding r by (auto split: if_splits)
    then show ?thesis using join_nl_chars [of c ?out] bf by blast
  qed
  then have lf: "lf_only result"
    by (auto simp: lf_only_def list_all_iff)
  have "transform_content result =
      Some (join_nl (splitlines result) @ (if endswith result [10] then [10] else []), False)"
    using nt by (simp add: transform_content_scan scan_id list_ex_iff)
  then show ?thesis by (simp only: lf_roundtrip [OF lf])
qed

theorem transform_content_idempotent_witness:
  "transform_content (py ''// SAFETY: x'') = Some (py ''/// SAFETY: x'', True)
   \<and> transform_content (py ''/// SAFETY: x'') = Some (py ''/// SAFETY: x'', False)"
proof -
  have h: "transform_content (py ''// SAFETY: x'') = Some (py ''/// SAFETY: x'', True)"
    by (simp add: line_eval text_eval)
  from h transform_content_idempotent [OF h] show ?thesis by simp
qed


text \<open>
  C2. Every line that \<open>transform_content\<close> converts (line \<open>i\<close> of a matched block: a
  trigger line or a continuation line) is the captured indent, the marker \<^verbatim>\<open>//\<close> and a
  rest; the output line at the same place is the same indent, the marker, one more marker
  character, and the same rest. Nothing else of the line changes.
\<close>

theorem converted_line_gets_one_marker:
  assumes "transform_content text = Some (result, changed)"
    and "i < length (splitlines text)"
    and "in_block (splitlines text) i"
  shows "\<exists>out indent rest.
           outer_loop (splitlines text) 0 [] False = Some (out, changed)
           \<and> result = join_nl out @ (if endswith text [10] then [10] else [])
           \<and> length out = length (splitlines text)
           \<and> list_all is_space indent
           \<and> (\<forall>m. rmatch SAFETY_START_RE (splitlines text ! i) = Some m
                    \<or> rmatch FOLLOWING_COMMENT_RE (splitlines text ! i) = Some m
                  \<longrightarrow> group m ''indent'' = indent)
           \<and> splitlines text ! i = indent @ py ''//'' @ rest
           \<and> out ! i = indent @ py ''//'' @ py ''/'' @ rest"
proof -
  let ?lines = "splitlines text"
  let ?line = "?lines ! i"
  from in_block_matched [OF assms(3)] matched_comment_body [of ?line]
  obtain r where r: "comment_body ?line = Some r" by blast
  have "scan False ?lines ! i = slash ?line"
    using assms(2,3) by (simp add: scan_nth)
  moreover have "list_all is_space (takeWhile is_space ?line)"
    by (auto simp: list_all_iff dest: set_takeWhileD)
  moreover have "\<forall>m. rmatch SAFETY_START_RE ?line = Some m
                    \<or> rmatch FOLLOWING_COMMENT_RE ?line = Some m
                  \<longrightarrow> group m ''indent'' = takeWhile is_space ?line"
    using match_indent by blast
  ultimately show ?thesis
    using transform_content_lines [OF assms(1)] comment_body_split [OF r]
    by (metis length_scan)
qed

theorem converted_line_gets_one_marker_witness:
  "transform_content scenario1 =
     Some (py ''    /// SAFETY: caller ensures validity'' @ [10] @ py ''    /// see also docs'' @ [10]
           @ py ''fn f() {}'' @ [10], True)
   \<and> Suc 0 < length (splitlines scenario1)
   \<and> in_block (splitlines scenario1) (Suc 0)
   \<and> (\<exists>out indent rest.
         outer_loop (splitlines scenario1) 0 [] False = Some (out, True)
         \<and> py ''    /// SAFETY: caller ensures validity'' @ [10] @ py ''    /// see also docs'' @ [10]
             @ py ''fn f() {}'' @ [10]
             = join_nl out @ (if endswith scenario1 [10] then [10] else [])
         \<and> length out = length (splitlines scenario1)
         \<and> list_all is_space indent
         \<and> (\<forall>m. rmatch SAFETY_START_RE (splitlines scenario1 ! Suc 0) = Some m
                  \<or> rmatch FOLLOWING_COMMENT_RE (splitlines scenario1 ! Suc 0) = Some m
                \<longrightarrow> group m ''indent'' = indent)
         \<and> splitlines scenario1 ! Suc 0 = indent @ py ''//'' @ rest
         \<and> out ! Suc 0 = indent @ py ''//'' @ py ''/'' @ rest)"
proof (intro conjI)
  show h1: "transform_content scenario1 =
     Some (py ''    /// SAFETY: caller ensures validity'' @ [10] @ py ''    /// see also docs'' @ [10]
           @ py ''fn f() {}'' @ [10], True)"
    by (rule scenario1_result)
  show h2: "Suc 0 < length (splitlines scenario1)"
    by (simp add: scenario1_lines)
  show h3: "in_block (splitlines scenario1) (Suc 0)"
    by (simp add: scenario1_lines line_eval)
  show "\<exists>out indent rest.
         outer_loop (splitlines scenario1) 0 [] False = Some (out, True)
         \<and> py ''    /// SAFETY: caller ensures validity'' @ [10] @ py ''    /// see also docs'' @ [10]
             @ py ''fn f() {}'' @ [10]
             = join_nl out @ (if endswith scenario1 [10] then [10] else [])
         \<and> length out = length (splitlines scenario1)
         \<and> list_all is_space indent
         \<and> (\<forall>m. rmatch SAFETY_START_RE (splitlines scenario1 ! Suc 0) = Some m
                  \<or> rmatch FOLLOWING_COMMENT_RE (splitlines scenario1 ! Suc 0) = Some m
                \<longrightarrow> group m ''indent'' = indent)
         \<and> splitlines scenario1 ! Suc 0 = indent @ py ''//'' @ rest
         \<and> out ! Suc 0 = indent @ py ''//'' @ py ''/'' @ rest"
    by (rule converted_line_gets_one_marker [OF h1 h2 h3])
qed

text \<open>
  C4. A line that is not part of a matched block is the same in the output as in the
  input. Blank lines, lines that are no comment and lines already in documentation form
  (\<^verbatim>\<open>///\<close> or \<^verbatim>\<open>//!\<close> after the indent, whatever follows, the tag included) match
  neither pattern, are never part of a block, are copied unchanged, and stop the inner
  loop at once when a run reaches them.
\<close>

theorem lines_outside_blocks_untouched:
  assumes "transform_content text = Some (result, changed)"
    and "i < length (splitlines text)"
  shows "\<exists>out.
           outer_loop (splitlines text) 0 [] False = Some (out, changed)
           \<and> result = join_nl out @ (if endswith text [10] then [10] else [])
           \<and> length out = length (splitlines text)
           \<and> (\<not> in_block (splitlines text) i \<longrightarrow> out ! i = splitlines text ! i)
           \<and> (blank_line (splitlines text ! i) \<or> non_comment_line (splitlines text ! i)
                 \<or> doc_comment_line (splitlines text ! i) \<longrightarrow>
               \<not> trigger (splitlines text ! i) \<and> \<not> following (splitlines text ! i)
               \<and> \<not> in_block (splitlines text) i \<and> out ! i = splitlines text ! i
               \<and> (\<forall>acc. inner_loop (splitlines text) i acc = Some (i, acc)))"
proof -
  let ?lines = "splitlines text"
  let ?line = "?lines ! i"
  have keep: "\<not> in_block ?lines i \<longrightarrow> scan False ?lines ! i = ?line"
    using assms(2) by (simp add: scan_nth)
  have "\<not> trigger ?line \<and> \<not> following ?line \<and> \<not> in_block ?lines i
        \<and> scan False ?lines ! i = ?line
        \<and> (\<forall>acc. inner_loop ?lines i acc = Some (i, acc))"
    if "blank_line ?line \<or> non_comment_line ?line \<or> doc_comment_line ?line"
  proof -
    from that have "comment_body ?line = None"
      using blank_non_comment unmatched_classes by blast
    then have nm: "\<not> trigger ?line" "\<not> following ?line"
      by (rule not_matched)+
    then have nb: "\<not> in_block ?lines i"
      using in_block_matched by blast
    show ?thesis
      using nm nb keep inner_loop_stops [OF assms(2) nm(2)] by simp
  qed
  then show ?thesis
    using transform_content_lines [OF assms(1)] keep by (simp add: length_scan)
qed

theorem lines_outside_blocks_untouched_witness:
  "transform_content scenario1 =
     Some (py ''    /// SAFETY: caller ensures validity'' @ [10] @ py ''    /// see also docs'' @ [10]
           @ py ''fn f() {}'' @ [10], True)
   \<and> Suc (Suc 0) < length (splitlines scenario1)
   \<and> non_comment_line (splitlines scenario1 ! Suc (Suc 0))
   \<and> (\<exists>out.
         outer_loop (splitlines scenario1) 0 [] False = Some (out, True)
         \<and> out ! Suc (Suc 0) = py ''fn f() {}''
         \<and> \<not> in_block (splitlines scenario1) (Suc (Suc 0)))"
proof -
  have h1: "transform_content scenario1 =
     Some (py ''    /// SAFETY: caller ensures validity'' @ [10] @ py ''    /// see also docs'' @ [10]
           @ py ''fn f() {}'' @ [10], True)"
    by (rule scenario1_result)
  have h2: "Suc (Suc 0) < length (splitlines scenario1)"
    by (simp add: scenario1_lines)
  have h3: "non_comment_line (splitlines scenario1 ! Suc (Suc 0))"
    by (simp add: scenario1_lines non_comment_line_def line_eval)
  have h4: "splitlines scenario1 ! Suc (Suc 0) = py ''fn f() {}''"
    by (simp add: scenario1_lines)
  from lines_outside_blocks_untouched [OF h1 h2] h3 h4 h1 h2 show ?thesis
    by auto
qed

text \<open>
  C7. A trigger line \<open>t\<close> at the cursor, a run of plain comment lines after it, then
  the end of the lines or a line that is blank, no comment, or already a documentation
  comment. One iteration of the outer loop rewrites \<open>t\<close> and the run and leaves the
  cursor on the stopping line, not after it: that line is the next to go through the
  body of the outer loop, which tests it against the trigger pattern. What is produced
  from there on is what the scan produces from the remaining lines on their own.
\<close>

theorem continuation_run_boundary:
  assumes "drop i lines = t # run @ tail"
    and "trigger t"
    and "list_all following run"
    and "list_all (\<lambda>l. blank_line l \<or> non_comment_line l \<or> doc_comment_line l) (take 1 tail)"
  shows "\<exists>tail_out tail_changed.
           outer_body lines i out changed
             = Some (i + 1 + length run, out @ map slash (t # run), True)
           \<and> drop (i + 1 + length run) lines = tail
           \<and> outer_loop tail 0 [] False = Some (tail_out, tail_changed)
           \<and> outer_loop lines (i + 1 + length run) acc c = Some (acc @ tail_out, c \<or> tail_changed)
           \<and> outer_loop lines i out changed = Some (out @ map slash (t # run) @ tail_out, True)
           \<and> (\<forall>stop rest. tail = stop # rest \<longrightarrow>
                 inner_loop lines (i + 1 + length run) acc = Some (i + 1 + length run, acc)
                 \<and> outer_body lines (i + 1 + length run) acc c =
                     (if trigger stop
                      then Some (i + 2 + length run + length (takeWhile following rest),
                                 acc @ slash stop # map slash (takeWhile following rest), True)
                      else Some (i + 2 + length run, acc @ [stop], c)))"
proof -
  let ?j = "i + 1 + length run"
  have nf: "list_all (\<lambda>l. \<not> following l) (take 1 tail)"
  proof (cases tail)
    case Nil
    then show ?thesis by simp
  next
    case (Cons stop rest)
    with assms(4) have "comment_body stop = None"
      using blank_non_comment unmatched_classes by auto
    then show ?thesis using Cons not_matched(2) by simp
  qed
  note rt = run_then_tail [OF assms(3) nf]
  have body: "outer_body lines i out changed = Some (?j, out @ map slash (t # run), True)"
    using outer_body_run [OF assms(1), of out changed] assms(2) rt by simp
  have "drop ?j lines = drop (length run) (drop (Suc i) lines)"
    by (simp add: add.commute)
  also have "drop (Suc i) lines = run @ tail"
    using drop_eq_ConsD(3) [OF assms(1)] .
  finally have dj: "drop ?j lines = tail" by simp
  have sc: "scan False (t # run @ tail) = map slash (t # run) @ scan False tail"
    using assms(2) rt by (simp add: scan_run)
  have whole: "outer_loop lines i out changed
               = Some (out @ map slash (t # run) @ scan False tail, True)"
    using assms(2) by (simp add: outer_loop_scan assms(1) sc del: scan.simps)
  have stop: "inner_loop lines ?j acc = Some (?j, acc)
     \<and> outer_body lines ?j acc c =
          (if trigger stop
           then Some (i + 2 + length run + length (takeWhile following rest),
                      acc @ slash stop # map slash (takeWhile following rest), True)
           else Some (i + 2 + length run, acc @ [stop], c))"
    if "tail = stop # rest" for stop rest
  proof -
    have d: "drop ?j lines = stop # rest" using dj that by simp
    have "\<not> following stop" using nf that by simp
    then have "inner_loop lines ?j acc = Some (?j, acc)"
      using inner_loop_run [OF d, of acc] by simp
    then show ?thesis using outer_body_run [OF d, of acc c] by simp
  qed
  show ?thesis
    using body dj whole stop by (simp add: outer_loop_scan del: scan.simps)
qed

theorem continuation_run_boundary_witness:
  "drop 0 [py ''// SAFETY: a'', py ''// b'', py ''fn f() {}'']
     = py ''// SAFETY: a'' # [py ''// b''] @ [py ''fn f() {}'']
   \<and> trigger (py ''// SAFETY: a'')
   \<and> list_all following [py ''// b'']
   \<and> list_all (\<lambda>l. blank_line l \<or> non_comment_line l \<or> doc_comment_line l)
        (take 1 [py ''fn f() {}''])
   \<and> outer_body [py ''// SAFETY: a'', py ''// b'', py ''fn f() {}''] 0 [] False
       = Some (2, [py ''/// SAFETY: a'', py ''/// b''], True)
   \<and> outer_loop [py ''// SAFETY: a'', py ''// b'', py ''fn f() {}''] 0 [] False
       = Some ([py ''/// SAFETY: a'', py ''/// b'', py ''fn f() {}''], True)"
proof -
  have h1: "drop 0 [py ''// SAFETY: a'', py ''// b'', py ''fn f() {}'']
     = py ''// SAFETY: a'' # [py ''// b''] @ [py ''fn f() {}'']"
    by simp
  have h2: "trigger (py ''// SAFETY: a'')"
    by (simp add: line_eval)
  have h3: "list_all following [py ''// b'']"
    by (simp add: line_eval)
  have h4: "list_all (\<lambda>l. blank_line l \<or> non_comment_line l \<or> doc_comment_line l)
        (take 1 [py ''fn f() {}''])"
    by (simp add: non_comment_line_def line_eval)
  have h5: "\<not> trigger (py ''fn f() {}'')"
    by (simp add: line_eval)
  have h6: "map slash [py ''// SAFETY: a'', py ''// b''] = [py ''/// SAFETY: a'', py ''/// b'']"
    by (simp add: line_eval)
  from continuation_run_boundary [OF h1 h2 h3 h4, where out = "[]" and changed = False
         and acc = "[]" and c = False]
  obtain tail_out tail_changed where
    b: "outer_body [py ''// SAFETY: a'', py ''// b'', py ''fn f() {}''] 0 [] False
          = Some (0 + 1 + length [py ''// b''], [] @ map slash [py ''// SAFETY: a'', py ''// b''], True)"
    and t: "outer_loop [py ''fn f() {}''] 0 [] False = Some (tail_out, tail_changed)"
    and w: "outer_loop [py ''// SAFETY: a'', py ''// b'', py ''fn f() {}''] 0 [] False
          = Some ([] @ map slash [py ''// SAFETY: a'', py ''// b''] @ tail_out, True)"
    by blast
  have "outer_loop [py ''fn f() {}''] 0 [] False = Some ([py ''fn f() {}''], False)"
    using h5 by (simp add: outer_loop_scan)
  with t have "tail_out = [py ''fn f() {}'']" by simp
  with b w h1 h2 h3 h4 show ?thesis
    unfolding h6 by simp
qed

text \<open>
  C6, as the code has it. A line matches the trigger pattern exactly when it is white
  space (the captured indent), the marker \<^verbatim>\<open>//\<close>, any number of white space characters
  (none, one or more), the tag \<^verbatim>\<open>SAFETY:\<close> in this very spelling, and a rest that holds
  no LF but possibly as its last character (any rest at all in a line that
  \<^verbatim>\<open>splitlines\<close> gives). The lookahead excludes nothing more: what follows the marker is
  white space or the \<^verbatim>\<open>S\<close> of the tag.
\<close>

theorem trigger_pattern_shape:
  "trigger line \<longleftrightarrow>
     (\<exists>indent ws rest.
        list_all is_space indent \<and> list_all is_space ws \<and> eol_ok rest
        \<and> line = indent @ py ''//'' @ ws @ py ''SAFETY:'' @ rest)"
proof
  assume "trigger line"
  then obtain r where r: "comment_body line = Some r"
    and sw: "startswith (dropWhile is_space r) (py ''SAFETY:'')"
    and eol: "eol_ok (drop 7 (dropWhile is_space r))"
    by (auto simp: trigger_def trigger_match split: option.splits if_splits)
  have "dropWhile is_space r = py ''SAFETY:'' @ drop 7 (dropWhile is_space r)"
    using startswith_split [OF sw] by (simp add: py_len)
  then have "takeWhile is_space r @ dropWhile is_space r
        = takeWhile is_space r @ py ''SAFETY:'' @ drop 7 (dropWhile is_space r)"
    by simp
  then have "r = takeWhile is_space r @ py ''SAFETY:'' @ drop 7 (dropWhile is_space r)"
    by simp
  with comment_body_split(1) [OF r]
  have "line = takeWhile is_space line @ py ''//'' @ takeWhile is_space r
                 @ py ''SAFETY:'' @ drop 7 (dropWhile is_space r)"
    by simp
  moreover have "list_all is_space (takeWhile is_space s)" for s
    by (auto simp: list_all_iff dest: set_takeWhileD)
  ultimately show "\<exists>indent ws rest.
        list_all is_space indent \<and> list_all is_space ws \<and> eol_ok rest
        \<and> line = indent @ py ''//'' @ ws @ py ''SAFETY:'' @ rest"
    using eol by blast
next
  assume "\<exists>indent ws rest.
        list_all is_space indent \<and> list_all is_space ws \<and> eol_ok rest
        \<and> line = indent @ py ''//'' @ ws @ py ''SAFETY:'' @ rest"
  then obtain indent ws rest where
    li: "list_all is_space indent" and lw: "list_all is_space ws"
    and eol: "eol_ok rest"
    and line: "line = indent @ py ''//'' @ ws @ py ''SAFETY:'' @ rest"
    by blast
  have ind: "\<And>c. c \<in> set indent \<Longrightarrow> is_space c"
    and ws: "\<And>c. c \<in> set ws \<Longrightarrow> is_space c"
    using li lw by (simp_all add: list_all_iff)
  have d1: "dropWhile is_space line = py ''//'' @ ws @ py ''SAFETY:'' @ rest"
    unfolding line using ind not_space_marks by (simp add: dropWhile_append2 py_lits)
  have d2: "dropWhile is_space (ws @ py ''SAFETY:'' @ rest) = py ''SAFETY:'' @ rest"
    using ws not_space_marks by (simp add: dropWhile_append2 py_lits)
  have la: "\<not> startswith (ws @ py ''SAFETY:'' @ rest) [c]" if "\<not> is_space c" "c \<noteq> 83" for c
    using that ws by (cases ws) (auto simp: py_lits startswith_simps)
  have "comment_body line = Some (ws @ py ''SAFETY:'' @ rest)"
    using la [of 47] la [of 33] not_space_marks
    by (simp add: comment_body_def d1 py_lits startswith_simps)
  moreover have "startswith (py ''SAFETY:'' @ rest) (py ''SAFETY:'')"
    by (simp add: startswith_def)
  moreover have "drop 7 (py ''SAFETY:'' @ rest) = rest"
    by (simp add: py_len)
  ultimately show "trigger line"
    using eol by (simp add: trigger_def trigger_match d2)
qed

theorem trigger_pattern_shape_witness:
  "trigger (py ''  //   SAFETY: x'')
   \<and> (\<exists>indent ws rest.
         list_all is_space indent \<and> list_all is_space ws \<and> eol_ok rest
         \<and> py ''  //   SAFETY: x'' = indent @ py ''//'' @ ws @ py ''SAFETY:'' @ rest)"
proof -
  have t: "trigger (py ''  //   SAFETY: x'')"
    by (simp add: line_eval)
  from t trigger_pattern_shape [of "py ''  //   SAFETY: x''"] show ?thesis
    by blast
qed

text \<open>
  C6, as the specification words it, fails: with two spaces between the marker and the
  tag the line matches the trigger pattern, and it is not of the form with at most one
  white space character.
\<close>

theorem trigger_single_space_counterexample:
  "trigger (py ''//  SAFETY: x'') \<and> \<not> spec_trigger_form (py ''//  SAFETY: x'')"
  by (simp add: line_eval spec_trigger_form_def)

text \<open>
  C1 at the text \<^verbatim>\<open>"a\x0cb"\<close>: the lines are split at the form feed and joined with LF,
  so the returned text differs from the input while \<open>changed\<close> is false.
\<close>

theorem unchanged_text_not_identical:
  "transform_content (py ''a'' @ [12] @ py ''b'') = Some (py ''a'' @ [10] @ py ''b'', False)
   \<and> py ''a'' @ [10] @ py ''b'' \<noteq> py ''a'' @ [12] @ py ''b''"
  by (simp add: line_eval text_eval)

text \<open>
  C5 at the texts \<^verbatim>\<open>"a\x0c"\<close> and \<^verbatim>\<open>"a\n\x0c"\<close>: the first ends with a line boundary
  and its output ends with none; the second does not end with LF and its output does.
\<close>

theorem trailing_terminator_lost:
  "transform_content (py ''a'' @ [12]) = Some (py ''a'', False)
   \<and> transform_content (py ''a'' @ [10, 12]) = Some (py ''a'' @ [10], False)"
  by (simp add: line_eval text_eval)


section \<open>Properties of the repository walk\<close>

text \<open>
  C8. Whatever the walk reads or writes (and so whatever text it gives to
  \<open>transform_content\<close>, which is only ever the text just read) does not lie below a
  directory, at any depth under the root, whose name is in the skip set: such a directory
  is taken out of \<open>dirnames\<close> before the walk descends. This holds for a run that
  a failing write ends, too.
\<close>

theorem skipped_directories_never_touched:
  assumes "process_repo root dry_run verbose tree = Some r"
    and "e \<in> set (events (final_state r))"
    and "event_path e = Some p"
  shows "\<not> below_skipped root p"
proof -
  from assms(1) have "walk dry_run verbose root tree \<lparr>changed_files = 0, events = []\<rparr> = Some r"
    by (simp add: process_repo_def)
  from walk_events(1) [OF this assms(2)] assms(3) have "kept_path root p" by auto
  then show ?thesis by (rule kept_not_below_skipped)
qed

theorem skipped_directories_never_touched_witness:
  "process_repo [py ''repo''] False False scenario5 =
     Some (Inr \<lparr>changed_files = 1,
                events = [ReadText [py ''repo'', py ''src'', py ''lib.rs''],
                          WriteText [py ''repo'', py ''src'', py ''lib.rs''] (py ''/// SAFETY: x'')]\<rparr>)
   \<and> \<not> below_skipped [py ''repo''] [py ''repo'', py ''src'', py ''lib.rs'']
   \<and> below_skipped [py ''repo''] [py ''repo'', py ''target'', py ''generated.rs'']"
proof -
  let ?st = "\<lparr>changed_files = 1,
                events = [ReadText [py ''repo'', py ''src'', py ''lib.rs''],
                          WriteText [py ''repo'', py ''src'', py ''lib.rs''] (py ''/// SAFETY: x'')]\<rparr>"
  have h1: "process_repo [py ''repo''] False False scenario5 = Some (Inr ?st)"
    by (rule scenario5_run)
  have h2: "ReadText [py ''repo'', py ''src'', py ''lib.rs''] \<in> set (events (final_state (Inr ?st)))"
    by (simp add: final_state_def)
  have h3: "event_path (ReadText [py ''repo'', py ''src'', py ''lib.rs''])
            = Some [py ''repo'', py ''src'', py ''lib.rs'']"
    by simp
  have h4: "below_skipped [py ''repo''] [py ''repo'', py ''target'', py ''generated.rs'']"
    by (simp add: below_skipped_def skip_names_def)
  from skipped_directories_never_touched [OF h1 h2 h3] h1 h4 show ?thesis
    by simp
qed

text \<open>
  C9. A file with the suffix whose read fails: the loop over the files goes on with the
  next name, from a state in which the read and, in verbose mode only, one diagnostic
  with the path and the failure have been added and the count of changed files is as
  before. No failing read ends the run: when nothing is written (a dry run) or every
  write succeeds, \<open>process_repo\<close> returns normally, whatever reads fail.
\<close>

theorem read_failure_skips_file:
  "(endswith fname (py ''.rs'') \<longrightarrow>
      process_files dry_run verbose dirpath (File fname (Inl e) writable # rest) st
        = process_files dry_run verbose dirpath rest
            (st\<lparr>events := events st @ ReadText (dirpath @ [fname])
                     # (if verbose then [Print (skip_msg (dirpath @ [fname]) e)] else [])\<rparr>)
      \<and> process_file dry_run verbose dirpath fname (Inl e) writable st
        = Some (Inr (st\<lparr>events := events st @ ReadText (dirpath @ [fname])
                     # (if verbose then [Print (skip_msg (dirpath @ [fname]) e)] else [])\<rparr>))
      \<and> changed_files (st\<lparr>events := events st @ ReadText (dirpath @ [fname])
                     # (if verbose then [Print (skip_msg (dirpath @ [fname]) e)] else [])\<rparr>)
        = changed_files st)
   \<and> (dry_run \<or> (\<forall>x\<in>set tree. all_writable x) \<longrightarrow>
        (\<exists>st'. process_repo root dry_run verbose tree = Some (Inr st')))"
proof (intro conjI impI)
  assume rs: "endswith fname (py ''.rs'')"
  show pf: "process_file dry_run verbose dirpath fname (Inl e) writable st
        = Some (Inr (st\<lparr>events := events st @ ReadText (dirpath @ [fname])
                     # (if verbose then [Print (skip_msg (dirpath @ [fname]) e)] else [])\<rparr>))"
    using rs by (simp add: process_file_def Let_def emit_def)
  show "process_files dry_run verbose dirpath (File fname (Inl e) writable # rest) st
        = process_files dry_run verbose dirpath rest
            (st\<lparr>events := events st @ ReadText (dirpath @ [fname])
                     # (if verbose then [Print (skip_msg (dirpath @ [fname]) e)] else [])\<rparr>)"
    by (simp add: pf)
  show "changed_files (st\<lparr>events := events st @ ReadText (dirpath @ [fname])
                     # (if verbose then [Print (skip_msg (dirpath @ [fname]) e)] else [])\<rparr>)
        = changed_files st"
    by simp
next
  assume "dry_run \<or> (\<forall>x\<in>set tree. all_writable x)"
  then show "\<exists>st'. process_repo root dry_run verbose tree = Some (Inr st')"
    unfolding process_repo_def by (rule walk_ok(1))
qed

theorem read_failure_skips_file_witness:
  "endswith (py ''a.rs'') (py ''.rs'')
   \<and> process_files True True [py ''repo'']
         (File (py ''a.rs'') (Inl (py ''denied'')) True
            # [File (py ''b.rs'') (Inr (py ''// SAFETY: x'')) True])
         \<lparr>changed_files = 0, events = []\<rparr>
       = process_files True True [py ''repo'']
           [File (py ''b.rs'') (Inr (py ''// SAFETY: x'')) True]
           \<lparr>changed_files = 0,
            events = [ReadText [py ''repo'', py ''a.rs''],
                      Print (skip_msg [py ''repo'', py ''a.rs''] (py ''denied''))]\<rparr>
   \<and> process_repo [py ''repo''] True True unreadable_tree =
       Some (Inr \<lparr>changed_files = 1,
                  events = [ReadText [py ''repo'', py ''a.rs''],
                            Print (py ''[skip] repo/a.rs: denied''),
                            ReadText [py ''repo'', py ''b.rs''],
                            Print (py ''[update] (dry-run) repo/b.rs'')]\<rparr>)"
proof -
  have h: "endswith (py ''a.rs'') (py ''.rs'')"
    by (simp add: endswith_def py_def)
  from read_failure_skips_file [where fname = "py ''a.rs''" and dry_run = True
      and verbose = True and dirpath = "[py ''repo'']" and e = "py ''denied''"
      and writable = True and rest = "[File (py ''b.rs'') (Inr (py ''// SAFETY: x'')) True]"
      and st = "\<lparr>changed_files = 0, events = []\<rparr>" and tree = unreadable_tree
      and root = "[py ''repo'']"]
    h unreadable_run
  show ?thesis by simp
qed

end
